theory Spec2Isabelle
  imports Main
begin

section \<open>Strings of the converter\<close>

text \<open>
  The converter (\<^verbatim>\<open>src/index.ts\<close>) works on JavaScript strings, which are sequences of
  UTF-16 code units. A code unit is modelled as a natural number and a string as a list of
  them, so that \<^verbatim>\<open>length\<close>, \<^verbatim>\<open>split\<close>, \<^verbatim>\<open>trim\<close> and the regular
  expressions count what the program counts. ASCII literals of the source are written
  \<open>js ''...''\<close>.
\<close>

type_synonym jsstring = "nat list"

definition js :: "string \<Rightarrow> jsstring" where
  "js s = map of_char s"

text \<open>
  \<^verbatim>\<open>WhiteSpace\<close> and \<^verbatim>\<open>LineTerminator\<close> of ECMAScript: what \<^verbatim>\<open>trim\<close>,
  \<^verbatim>\<open>trimStart\<close> and the class \<^verbatim>\<open>\s\<close> remove or match. In order: TAB, LF, VT, FF,
  CR, SP, NBSP, U+1680, U+2000 to U+200A, U+2028, U+2029, U+202F, U+205F, U+3000, U+FEFF.
\<close>

definition isWhiteSpace :: "nat \<Rightarrow> bool" where
  "isWhiteSpace c \<longleftrightarrow>
     c = 9 \<or> c = 10 \<or> c = 11 \<or> c = 12 \<or> c = 13 \<or> c = 32 \<or> c = 160 \<or> c = 5760 \<or>
     (8192 \<le> c \<and> c \<le> 8202) \<or> c = 8232 \<or> c = 8233 \<or> c = 8239 \<or> c = 8287 \<or>
     c = 12288 \<or> c = 65279"

text \<open>Line terminators: LF, CR, U+2028, U+2029 (what \<^verbatim>\<open>.\<close> refuses, where \<^verbatim>\<open>^\<close> and
  \<^verbatim>\<open>$\<close> of a multiline expression hold).\<close>

definition isLineTerminator :: "nat \<Rightarrow> bool" where
  "isLineTerminator c \<longleftrightarrow> c = 10 \<or> c = 13 \<or> c = 8232 \<or> c = 8233"

definition trimStart :: "jsstring \<Rightarrow> jsstring" where
  "trimStart s = dropWhile isWhiteSpace s"

definition trimEnd :: "jsstring \<Rightarrow> jsstring" where
  "trimEnd s = rev (dropWhile isWhiteSpace (rev s))"

definition trim :: "jsstring \<Rightarrow> jsstring" where
  "trim s = trimEnd (trimStart s)"

definition startsWith :: "jsstring \<Rightarrow> jsstring \<Rightarrow> bool" where
  "startsWith s p \<longleftrightarrow> take (length p) s = p"

fun includes_str :: "jsstring \<Rightarrow> jsstring \<Rightarrow> bool" where
  "includes_str [] p = (p = [])"
| "includes_str (c # s) p = (startsWith (c # s) p \<or> includes_str s p)"

text \<open>\<^verbatim>\<open>s.split('\n')\<close>: the empty string gives one empty line.\<close>

fun split_on :: "nat \<Rightarrow> jsstring \<Rightarrow> jsstring list" where
  "split_on d [] = [[]]"
| "split_on d (c # s) =
     (if c = d then [] # split_on d s
      else (case split_on d s of l # ls \<Rightarrow> (c # l) # ls | [] \<Rightarrow> [[c]]))"

definition split_lines :: "jsstring \<Rightarrow> jsstring list" where
  "split_lines s = split_on 10 s"

text \<open>\<^verbatim>\<open>lines.join('\n')\<close>.\<close>

fun join_lines :: "jsstring list \<Rightarrow> jsstring" where
  "join_lines [] = []"
| "join_lines [l] = l"
| "join_lines (l # ls) = l @ 10 # join_lines ls"

section \<open>Regular expressions\<close>

text \<open>
  The cleanup rules are JavaScript regular expressions. They are embedded as syntax trees
  and run by a backtracking matcher that returns, for a start state, every way the
  expression can match, in the order in which JavaScript tries them: the head of the list
  is the match that \<^verbatim>\<open>exec\<close> reports.
\<close>

text \<open>An item of a character class: one code unit, a range, \<^verbatim>\<open>\s\<close>, \<^verbatim>\<open>\S\<close>,
  \<^verbatim>\<open>\w\<close>, \<^verbatim>\<open>\d\<close>.\<close>

datatype cclass = CU nat | CRange nat nat | CSpace | CNonSpace | CWord | CDigit

definition ch :: "char \<Rightarrow> cclass" where
  "ch c = CU (of_char c)"

definition rng :: "char \<Rightarrow> char \<Rightarrow> cclass" where
  "rng a b = CRange (of_char a) (of_char b)"

definition isDigit :: "nat \<Rightarrow> bool" where
  "isDigit c \<longleftrightarrow> 48 \<le> c \<and> c \<le> 57"

definition isWordChar :: "nat \<Rightarrow> bool" where
  "isWordChar c \<longleftrightarrow> (97 \<le> c \<and> c \<le> 122) \<or> (65 \<le> c \<and> c \<le> 90) \<or> isDigit c \<or> c = 95"

fun in_cclass :: "cclass \<Rightarrow> nat \<Rightarrow> bool" where
  "in_cclass (CU u) c = (c = u)"
| "in_cclass (CRange a b) c = (a \<le> c \<and> c \<le> b)"
| "in_cclass CSpace c = isWhiteSpace c"
| "in_cclass CNonSpace c = (\<not> isWhiteSpace c)"
| "in_cclass CWord c = isWordChar c"
| "in_cclass CDigit c = isDigit c"

text \<open>A code unit is in a class when one of the items has it.\<close>

definition in_class :: "cclass list \<Rightarrow> nat \<Rightarrow> bool" where
  "in_class cs c = list_ex (\<lambda>k. in_cclass k c) cs"

text \<open>
  \<open>Bol m\<close> and \<open>Eol m\<close> are \<^verbatim>\<open>^\<close> and \<^verbatim>\<open>$\<close>, \<open>m\<close> the multiline flag of the
  expression; \<open>Star\<close> is greedy, \<open>LazyStar\<close> is \<^verbatim>\<open>*?\<close>, \<open>Opt\<close> is the greedy
  \<^verbatim>\<open>?\<close>; \<open>Group n\<close> is the \<open>n\<close>-th capturing group; \<open>Ahead\<close> is \<^verbatim>\<open>(?=...)\<close>.
\<close>

datatype regex =
    Eps
  | Chars "cclass list"
  | NotChars "cclass list"
  | Dot
  | Bol bool
  | Eol bool
  | Seq regex regex
  | Opt regex
  | Star regex
  | LazyStar regex
  | Group nat regex
  | Ahead regex

text \<open>A matcher state: the code unit before the current position (none at the start of
  the input), the input from the current position on, and the captures so far.\<close>

type_synonym captures = "(nat \<times> jsstring) list"
type_synonym mstate = "nat option \<times> jsstring \<times> captures"

definition remaining :: "mstate \<Rightarrow> jsstring" where
  "remaining s = fst (snd s)"

text \<open>
  Iteration of a quantified atom. An iteration that consumes nothing is rejected, as in
  ECMAScript, so each one shortens the input and the length of the input bounds their
  number: the first argument is that bound.
\<close>

fun iterate :: "nat \<Rightarrow> (mstate \<Rightarrow> mstate list) \<Rightarrow> mstate \<Rightarrow> mstate list" where
  "iterate 0 f s = [s]"
| "iterate (Suc n) f s =
     concat (map (iterate n f)
       (filter (\<lambda>s'. length (remaining s') < length (remaining s)) (f s))) @ [s]"

fun iterate_lazy :: "nat \<Rightarrow> (mstate \<Rightarrow> mstate list) \<Rightarrow> mstate \<Rightarrow> mstate list" where
  "iterate_lazy 0 f s = [s]"
| "iterate_lazy (Suc n) f s =
     s # concat (map (iterate_lazy n f)
       (filter (\<lambda>s'. length (remaining s') < length (remaining s)) (f s)))"

definition step_char :: "(nat \<Rightarrow> bool) \<Rightarrow> mstate \<Rightarrow> mstate list" where
  "step_char P s =
     (case s of (p, xs, caps) \<Rightarrow>
        (case xs of [] \<Rightarrow> [] | x # xs' \<Rightarrow> if P x then [(Some x, xs', caps)] else []))"

definition at_line_start :: "bool \<Rightarrow> mstate \<Rightarrow> bool" where
  "at_line_start m s =
     (case fst s of None \<Rightarrow> True | Some c \<Rightarrow> m \<and> isLineTerminator c)"

definition at_line_end :: "bool \<Rightarrow> mstate \<Rightarrow> bool" where
  "at_line_end m s =
     (case remaining s of [] \<Rightarrow> True | c # _ \<Rightarrow> m \<and> isLineTerminator c)"

definition capture :: "nat \<Rightarrow> mstate \<Rightarrow> mstate \<Rightarrow> mstate" where
  "capture n s s' =
     (case s' of (p, xs, caps) \<Rightarrow>
        (p, xs, (n, take (length (remaining s) - length xs) (remaining s)) # caps))"

fun rmatch :: "regex \<Rightarrow> mstate \<Rightarrow> mstate list" where
  "rmatch Eps s = [s]"
| "rmatch (Chars cs) s = step_char (in_class cs) s"
| "rmatch (NotChars cs) s = step_char (\<lambda>c. \<not> in_class cs c) s"
| "rmatch Dot s = step_char (\<lambda>c. \<not> isLineTerminator c) s"
| "rmatch (Bol m) s = (if at_line_start m s then [s] else [])"
| "rmatch (Eol m) s = (if at_line_end m s then [s] else [])"
| "rmatch (Seq a b) s = concat (map (rmatch b) (rmatch a s))"
| "rmatch (Opt r) s = rmatch r s @ [s]"
| "rmatch (Star r) s = iterate (length (remaining s)) (rmatch r) s"
| "rmatch (LazyStar r) s = iterate_lazy (length (remaining s)) (rmatch r) s"
| "rmatch (Group n r) s = map (capture n s) (rmatch r s)"
| "rmatch (Ahead r) s = (if rmatch r s = [] then [] else [s])"

text \<open>Abbreviations for writing the expressions of the source.\<close>

definition cat :: "regex list \<Rightarrow> regex" where
  "cat rs = foldr Seq rs Eps"

definition lit :: "string \<Rightarrow> regex" where
  "lit s = cat (map (\<lambda>c. Chars [ch c]) s)"

definition Plus :: "regex \<Rightarrow> regex" where
  "Plus r = Seq r (Star r)"

text \<open>\<^verbatim>\<open>r{n,}\<close>\<close>

fun AtLeast :: "nat \<Rightarrow> regex \<Rightarrow> regex" where
  "AtLeast 0 r = Star r"
| "AtLeast (Suc n) r = Seq r (AtLeast n r)"

text \<open>\<^verbatim>\<open>r{0,n}\<close>, greedy\<close>

fun UpTo :: "nat \<Rightarrow> regex \<Rightarrow> regex" where
  "UpTo 0 r = Eps"
| "UpTo (Suc n) r = Opt (Seq r (UpTo n r))"

text \<open>
  \<^verbatim>\<open>exec\<close> at one position: the length of the match and its captures, when there is one.
\<close>

definition exec_at :: "regex \<Rightarrow> nat option \<Rightarrow> jsstring \<Rightarrow> (nat \<times> captures) option" where
  "exec_at r p xs =
     (case rmatch r (p, xs, []) of
        [] \<Rightarrow> None
      | s' # _ \<Rightarrow> Some (length xs - length (remaining s'), snd (snd s')))"

text \<open>The first match at or after the current position: its index, length and captures.\<close>

fun search :: "regex \<Rightarrow> nat option \<Rightarrow> nat \<Rightarrow> jsstring \<Rightarrow> (nat \<times> nat \<times> captures) option" where
  "search r p i [] = (case exec_at r p [] of None \<Rightarrow> None | Some (n, caps) \<Rightarrow> Some (i, n, caps))"
| "search r p i (x # xs) =
     (case exec_at r p (x # xs) of
        None \<Rightarrow> search r (Some x) (Suc i) xs
      | Some (n, caps) \<Rightarrow> Some (i, n, caps))"

text \<open>\<^verbatim>\<open>re.test(s)\<close>, and the truth value of \<^verbatim>\<open>s.match(re)\<close>.\<close>

definition test :: "regex \<Rightarrow> jsstring \<Rightarrow> bool" where
  "test r s \<longleftrightarrow> search r None 0 s \<noteq> None"

text \<open>A replacement string: literal text and \<^verbatim>\<open>$n\<close>. A group that did not take part
  in the match gives the empty string.\<close>

datatype titem = TLit string | TGroup nat

definition group :: "captures \<Rightarrow> nat \<Rightarrow> jsstring option" where
  "group caps n = map_of caps n"

fun expand :: "titem list \<Rightarrow> captures \<Rightarrow> jsstring" where
  "expand [] caps = []"
| "expand (TLit s # t) caps = js s @ expand t caps"
| "expand (TGroup n # t) caps =
     (case group caps n of None \<Rightarrow> [] | Some g \<Rightarrow> g) @ expand t caps"

text \<open>
  \<^verbatim>\<open>s.replace(re, t)\<close> with the global flag. The third argument is the code unit before
  the current position, the fourth the number of code units still covered by the last
  match. After an empty match the scan moves on by one code unit, which is copied.
\<close>

fun replace_from :: "regex \<Rightarrow> titem list \<Rightarrow> nat option \<Rightarrow> nat \<Rightarrow> jsstring \<Rightarrow> jsstring" where
  "replace_from r t p (Suc k) [] = []"
| "replace_from r t p (Suc k) (x # xs) = replace_from r t (Some x) k xs"
| "replace_from r t p 0 [] =
     (case exec_at r p [] of None \<Rightarrow> [] | Some (n, caps) \<Rightarrow> expand t caps)"
| "replace_from r t p 0 (x # xs) =
     (case exec_at r p (x # xs) of
        None \<Rightarrow> x # replace_from r t (Some x) 0 xs
      | Some (n, caps) \<Rightarrow>
          expand t caps @
          (case n of
             0 \<Rightarrow> x # replace_from r t (Some x) 0 xs
           | Suc k \<Rightarrow> replace_from r t (Some x) k xs))"

definition replace_all :: "regex \<Rightarrow> titem list \<Rightarrow> jsstring \<Rightarrow> jsstring" where
  "replace_all r t s = replace_from r t None 0 s"

text \<open>\<^verbatim>\<open>s.replace(re, t)\<close> without the global flag: the first match only.\<close>

definition replace_first :: "regex \<Rightarrow> titem list \<Rightarrow> jsstring \<Rightarrow> jsstring" where
  "replace_first r t s =
     (case search r None 0 s of
        None \<Rightarrow> s
      | Some (i, n, caps) \<Rightarrow> take i s @ expand t caps @ drop (i + n) s)"

section \<open>The markup cleaner\<close>

text \<open>
  \<^verbatim>\<open>cleanupForLLM\<close> is a chain of \<^verbatim>\<open>replace\<close> calls with the global flag. A rule is
  an expression and its replacement string; a chain is a list of rules applied from left to
  right. Each rule below is preceded by the expression of the source.
\<close>

type_synonym rule = "regex \<times> titem list"

definition apply_rules :: "rule list \<Rightarrow> jsstring \<Rightarrow> jsstring" where
  "apply_rules rules s = foldl (\<lambda>acc (r, t). replace_all r t acc) s rules"

abbreviation (input) ws :: regex where "ws \<equiv> Chars [CSpace]"
abbreviation (input) word :: regex where "word \<equiv> Chars [CWord]"
abbreviation (input) bol :: regex where "bol \<equiv> Bol True"
abbreviation (input) eol :: regex where "eol \<equiv> Eol True"
abbreviation (input) no :: "char \<Rightarrow> regex" where "no c \<equiv> NotChars [ch c]"

text \<open>An identifier tail \<^verbatim>\<open>[a-zA-Z0-9_]\<close>.\<close>

definition ident_char :: regex where
  "ident_char = Chars [rng CHR ''a'' CHR ''z'', rng CHR ''A'' CHR ''Z'', rng CHR ''0'' CHR ''9'', ch CHR ''_'']"

definition removeImageReferences :: "jsstring \<Rightarrow> jsstring" where
  \<open>removeImageReferences content = apply_rules
     [ \<comment> \<open>\<^verbatim>\<open>/!\[.*?\]\([^)]*\)/g\<close>\<close>
       (cat [lit ''!['', LazyStar Dot, lit '']('', Star (no CHR '')''), lit '')''], []),
       \<comment> \<open>\<^verbatim>\<open>/\[image\]/g\<close>\<close>
       (lit ''[image]'', []),
       \<comment> \<open>\<^verbatim>\<open>/^\s*\.\. figure::.*$/gm\<close>\<close>
       (cat [bol, Star ws, lit ''.. figure::'', Star Dot, eol], []),
       \<comment> \<open>\<^verbatim>\<open>/^\s*\.\. image::.*$/gm\<close>\<close>
       (cat [bol, Star ws, lit ''.. image::'', Star Dot, eol], [])
     ] content\<close>

text \<open>The first chain of \<^verbatim>\<open>cleanupForLLM\<close>, up to its \<^verbatim>\<open>trim\<close>. The code unit 34 is
  the double quote; 55357 and 56599 are the two code units of U+1F517, the link glyph.\<close>

definition markup_rules :: "rule list" where
  \<open>markup_rules =
     [ \<comment> \<open>\<^verbatim>\<open>/<div[^>]*>[\s\S]*?<\/div>/g\<close>\<close>
       (cat [lit ''<div'', Star (no CHR ''>''), lit ''>'', LazyStar (Chars [CSpace, CNonSpace]),
             lit ''</div>''], []),
       \<comment> \<open>\<^verbatim>\<open>/^\|\|.*$/gm\<close>\<close>
       (cat [bol, lit ''||'', Star Dot, eol], []),
       \<comment> \<open>\<^verbatim>\<open>/^\s*\|\s*\|\s*$/gm\<close>\<close>
       (cat [bol, Star ws, lit ''|'', Star ws, lit ''|'', Star ws, eol], []),
       \<comment> \<open>\<^verbatim>\<open>/::::\s*\{[^}]*\}/g\<close>\<close>
       (cat [lit ''::::'', Star ws, lit ''{'', Star (no CHR ''}''), lit ''}''], []),
       \<comment> \<open>\<^verbatim>\<open>/:::\s*rst-class[^:]*$/gm\<close>\<close>
       (cat [lit '':::'', Star ws, lit ''rst-class'', Star (no CHR '':''), eol], []),
       \<comment> \<open>\<^verbatim>\<open>/:::\s*\w+$/gm\<close>\<close>
       (cat [lit '':::'', Star ws, Plus word, eol], []),
       \<comment> \<open>\<^verbatim>\<open>/::::/g\<close>\<close>
       (lit ''::::'', []),
       \<comment> \<open>\<^verbatim>\<open>/:::/g\<close>\<close>
       (lit '':::'', []),
       \<comment> \<open>\<^verbatim>\<open>/\{\.interpreted-text role="[^"]*"\}/g\<close>\<close>
       (cat [lit ''{.interpreted-text role='', Chars [CU 34], Star (NotChars [CU 34]),
             Chars [CU 34], lit ''}''], []),
       \<comment> \<open>\<^verbatim>\<open>/`(U+1F517)<[^>]*>`/g\<close>\<close>
       (cat [lit ''`'', Chars [CU 55357], Chars [CU 56599], lit ''<'', Star (no CHR ''>''),
             lit ''>`''], []),
       \<comment> \<open>\<^verbatim>\<open>/\{#[^}]*\}/g\<close>\<close>
       (cat [lit ''{#'', Star (no CHR ''}''), lit ''}''], []),
       \<comment> \<open>\<^verbatim>\<open>/\{\.classref[^}]*\}/g\<close>\<close>
       (cat [lit ''{.classref'', Star (no CHR ''}''), lit ''}''], []),
       \<comment> \<open>\<^verbatim>\<open>/`const \(This method has no side effects[^`]*\)`/g\<close>\<close>
       (cat [lit ''`const (This method has no side effects'', Star (no CHR ''`''), lit '')`''], []),
       \<comment> \<open>\<^verbatim>\<open>/`static \(This method[^`]*\)`/g\<close>\<close>
       (cat [lit ''`static (This method'', Star (no CHR ''`''), lit '')`''], []),
       \<comment> \<open>\<^verbatim>\<open>/`virtual \(This method[^`]*\)`/g\<close>\<close>
       (cat [lit ''`virtual (This method'', Star (no CHR ''`''), lit '')`''], []),
       \<comment> \<open>\<^verbatim>\<open>/^\s*\.\.\s+\w+::/gm\<close>\<close>
       (cat [bol, Star ws, lit ''..'', Plus ws, Plus word, lit ''::''], []),
       \<comment> \<open>\<^verbatim>\<open>/^github_url\s*:\s*hide\s*$/gm\<close>\<close>
       (cat [bol, lit ''github_url'', Star ws, lit '':'', Star ws, lit ''hide'', Star ws, eol], []),
       \<comment> \<open>\<^verbatim>\<open>/^[a-z_]+\s*:\s*[^\n]*$/gm\<close>\<close>
       (cat [bol, Plus (Chars [rng CHR ''a'' CHR ''z'', ch CHR ''_'']), Star ws, lit '':'', Star ws,
             Star (NotChars [CU 10]), eol], []),
       \<comment> \<open>\<^verbatim>\<open>/^-{4,}$/gm\<close>\<close>
       (cat [bol, AtLeast 4 (lit ''-''), eol], []),
       \<comment> \<open>\<^verbatim>\<open>/^\s*-{4,}\s*$/gm\<close>\<close>
       (cat [bol, Star ws, AtLeast 4 (lit ''-''), Star ws, eol], []),
       \<comment> \<open>\<^verbatim>\<open>/^\s*:\w+:\s*$/gm\<close>\<close>
       (cat [bol, Star ws, lit '':'', Plus word, lit '':'', Star ws, eol], []),
       \<comment> \<open>\<^verbatim>\<open>/^\s*-group\s*$/gm\<close>\<close>
       (cat [bol, Star ws, lit ''-group'', Star ws, eol], []),
       \<comment> \<open>\<^verbatim>\<open>/`([A-Z][a-zA-Z0-9_]*)<class_[^>]*>`/g\<close> to \<^verbatim>\<open>'$1'\<close>\<close>
       (cat [lit ''`'', Group 1 (Seq (Chars [rng CHR ''A'' CHR ''Z'']) (Star ident_char)),
             lit ''<class_'', Star (no CHR ''>''), lit ''>`''], [TGroup 1]),
       \<comment> \<open>\<^verbatim>\<open>/`([a-z_][a-zA-Z0-9_]*)\(\)<class_[^>]*_method_[^>]*>`/g\<close> to \<^verbatim>\<open>'$1()'\<close>\<close>
       (cat [lit ''`'', Group 1 (Seq (Chars [rng CHR ''a'' CHR ''z'', ch CHR ''_'']) (Star ident_char)),
             lit ''()<class_'', Star (no CHR ''>''), lit ''_method_'', Star (no CHR ''>''),
             lit ''>`''], [TGroup 1, TLit ''()'']),
       \<comment> \<open>\<^verbatim>\<open>/`([a-z_][a-zA-Z0-9_]*)<class_[^>]*_method_[^>]*>`/g\<close> to \<^verbatim>\<open>'$1()'\<close>\<close>
       (cat [lit ''`'', Group 1 (Seq (Chars [rng CHR ''a'' CHR ''z'', ch CHR ''_'']) (Star ident_char)),
             lit ''<class_'', Star (no CHR ''>''), lit ''_method_'', Star (no CHR ''>''),
             lit ''>`''], [TGroup 1, TLit ''()'']),
       \<comment> \<open>\<^verbatim>\<open>/`([a-zA-Z0-9_]+)<[^>]*>`/g\<close> to \<^verbatim>\<open>'$1'\<close>\<close>
       (cat [lit ''`'', Group 1 (Plus ident_char), lit ''<'', Star (no CHR ''>''), lit ''>`''],
        [TGroup 1]),
       \<comment> \<open>\<^verbatim>\<open>/^(#+)\s*class_([a-zA-Z0-9_]+)$/gm\<close> to \<^verbatim>\<open>'$1 $2'\<close>\<close>
       (cat [bol, Group 1 (Plus (lit ''#'')), Star ws, lit ''class_'', Group 2 (Plus ident_char), eol],
        [TGroup 1, TLit '' '', TGroup 2]),
       \<comment> \<open>\<^verbatim>\<open>/classref-[\w-]+/g\<close>\<close>
       (cat [lit ''classref-'', Plus (Chars [CWord, ch CHR ''-''])], []),
       \<comment> \<open>\<^verbatim>\<open>/\*\*([^*]+)\*\*\([^)]*\)\s*\{[^}]*\}/g\<close> to \<^verbatim>\<open>'**$1()**'\<close>\<close>
       (cat [lit ''**'', Group 1 (Plus (no CHR ''*'')), lit ''**('', Star (no CHR '')''), lit '')'',
             Star ws, lit ''{'', Star (no CHR ''}''), lit ''}''],
        [TLit ''**'', TGroup 1, TLit ''()**'']),
       \<comment> \<open>\<^verbatim>\<open>/(#{1,6}[^\n]*)\n\s*\n(?=\S)/g\<close> to \<^verbatim>\<open>'$1\n\n'\<close>\<close>
       (cat [Group 1 (cat [lit ''#'', UpTo 5 (lit ''#''), Star (NotChars [CU 10])]), Chars [CU 10],
             Star ws, Chars [CU 10], Ahead (Chars [CNonSpace])],
        [TGroup 1, TLit ''\<newline>\<newline>'']),
       \<comment> \<open>\<^verbatim>\<open>/\n{3,}/g\<close> to \<^verbatim>\<open>'\n\n'\<close>\<close>
       (AtLeast 3 (Chars [CU 10]), [TLit ''\<newline>\<newline>'']),
       \<comment> \<open>\<^verbatim>\<open>/[ \t]+/g\<close> to \<^verbatim>\<open>' '\<close>\<close>
       (Plus (Chars [CU 32, CU 9]), [TLit '' '']),
       \<comment> \<open>\<^verbatim>\<open>/^#+\s*$/gm\<close>\<close>
       (cat [bol, Plus (lit ''#''), Star ws, eol], [])
     ]\<close>

text \<open>The second chain, before the split into lines.\<close>

definition repair_rules :: "rule list" where
  \<open>repair_rules =
     [ \<comment> \<open>\<^verbatim>\<open>/(\w)(\*\*\w)/g\<close> to \<^verbatim>\<open>'$1 $2'\<close>\<close>
       (cat [Group 1 word, Group 2 (Seq (lit ''**'') word)], [TGroup 1, TLit '' '', TGroup 2]),
       \<comment> \<open>\<^verbatim>\<open>/([.!?])([A-Z])/g\<close> to \<^verbatim>\<open>'$1 $2'\<close>\<close>
       (cat [Group 1 (Chars [ch CHR ''.'', ch CHR ''!'', ch CHR ''?'']),
             Group 2 (Chars [rng CHR ''A'' CHR ''Z''])], [TGroup 1, TLit '' '', TGroup 2]),
       \<comment> \<open>\<^verbatim>\<open>/`([a-z_][a-zA-Z0-9_]*)\(\)` /g\<close> to \<^verbatim>\<open>'$1() '\<close>\<close>
       (cat [lit ''`'', Group 1 (Seq (Chars [rng CHR ''a'' CHR ''z'', ch CHR ''_'']) (Star ident_char)),
             lit ''()` ''], [TGroup 1, TLit ''() ''])
     ]\<close>

text \<open>The predicate of the \<^verbatim>\<open>filter\<close> over the lines. Its expressions have no flag:
  \<^verbatim>\<open>^\<close> and \<^verbatim>\<open>$\<close> are the two ends of the trimmed line.\<close>

definition keep_line :: "jsstring \<Rightarrow> bool" where
  \<open>keep_line line =
     (let trimmed = trim line in
      length trimmed > 0 \<and>
      \<comment> \<open>\<^verbatim>\<open>/^[-:]+$/\<close>\<close>
      \<not> test (cat [Bol False, Plus (Chars [ch CHR ''-'', ch CHR '':'']), Eol False]) trimmed \<and>
      \<comment> \<open>\<^verbatim>\<open>/^[{}]+$/\<close>\<close>
      \<not> test (cat [Bol False, Plus (Chars [ch CHR ''{'', ch CHR ''}'']), Eol False]) trimmed \<and>
      \<comment> \<open>\<^verbatim>\<open>/^\s*group\s*$/\<close>\<close>
      \<not> test (cat [Bol False, Star ws, lit ''group'', Star ws, Eol False]) trimmed \<and>
      \<comment> \<open>\<^verbatim>\<open>/^\s*separator\s*$/\<close>\<close>
      \<not> test (cat [Bol False, Star ws, lit ''separator'', Star ws, Eol False]) trimmed \<and>
      \<comment> \<open>\<^verbatim>\<open>/^\s*classref-.*$/\<close>\<close>
      \<not> test (cat [Bol False, Star ws, lit ''classref-'', Star Dot, Eol False]) trimmed \<and>
      \<comment> \<open>\<^verbatim>\<open>/^\s*<.*>\s*$/\<close>\<close>
      \<not> test (cat [Bol False, Star ws, lit ''<'', Star Dot, lit ''>'', Star ws, Eol False]) trimmed)\<close>

text \<open>\<^verbatim>\<open>cleanupForLLM\<close> up to the call of \<^verbatim>\<open>reconstructTables\<close>.\<close>

definition cleanup_text :: "jsstring \<Rightarrow> jsstring" where
  "cleanup_text content =
     (let content = removeImageReferences content;
          content = trim (apply_rules markup_rules content);
          content = apply_rules repair_rules content;
          content = join_lines (filter keep_line (split_lines content));
          content = replace_all (AtLeast 3 (Chars [CU 10])) [TLit ''\<newline>\<newline>''] content
      in trim content)"

section \<open>Table reconstruction\<close>

text \<open>\<^verbatim>\<open>{ type: string; name: string; defaultValue?: string }\<close>\<close>

record property_record =
  ptype :: jsstring
  pname :: jsstring
  defaultValue :: "jsstring option"

text \<open>\<^verbatim>\<open>{ returnType: string; signature: string }\<close>\<close>

record method_record =
  returnType :: jsstring
  signature :: jsstring

text \<open>A group inside a template literal: \<^verbatim>\<open>undefined\<close> prints as that word.\<close>

definition group_text :: "captures \<Rightarrow> nat \<Rightarrow> jsstring" where
  "group_text caps n = (case group caps n of None \<Rightarrow> js ''undefined'' | Some g \<Rightarrow> g)"

text \<open>An identifier \<^verbatim>\<open>[a-zA-Z_][a-zA-Z0-9_]*\<close>.\<close>

definition ident_regex :: regex where
  "ident_regex =
     Seq (Chars [rng CHR ''a'' CHR ''z'', rng CHR ''A'' CHR ''Z'', ch CHR ''_'']) (Star ident_char)"

definition property_regex :: regex where
  \<open>property_regex =
     \<comment> \<open>\<^verbatim>\<open>/^(\w+(?:\d+D?)?)\s+\*\*([a-zA-Z_][a-zA-Z0-9_]*)\*\*(?:\s*=\s*`([^`]+)`)?/\<close>\<close>
     cat [Bol False,
          Group 1 (Seq (Plus word) (Opt (Seq (Plus (Chars [CDigit])) (Opt (lit ''D''))))),
          Plus ws, lit ''**'', Group 2 ident_regex, lit ''**'',
          Opt (cat [Star ws, lit ''='', Star ws, lit ''`'', Group 3 (Plus (no CHR ''`'')), lit ''`''])]\<close>

definition method_regex :: regex where
  \<open>method_regex =
     \<comment> \<open>\<^verbatim>\<open>/^`([^`]+)`\s+\*\*([a-zA-Z_][a-zA-Z0-9_]*)\*\*\s*\(([^)]*)\)/\<close>\<close>
     cat [Bol False, lit ''`'', Group 1 (Plus (no CHR ''`'')), lit ''`'', Plus ws, lit ''**'',
          Group 2 ident_regex, lit ''**'', Star ws, lit ''('', Group 3 (Star (no CHR '')'')),
          lit '')'']\<close>

definition annotation_regex :: regex where
  \<open>annotation_regex =
     \<comment> \<open>\<^verbatim>\<open>/\s*\(.*?\)\s*/\<close>\<close>
     cat [Star ws, lit ''('', LazyStar Dot, lit '')'', Star ws]\<close>

text \<open>\<^verbatim>\<open>line.match(...)\<close> and the destructuring of its groups.\<close>

definition propertyMatch :: "jsstring \<Rightarrow> property_record option" where
  "propertyMatch line =
     (case search property_regex None 0 line of
        None \<Rightarrow> None
      | Some (i, n, caps) \<Rightarrow>
          Some \<lparr>ptype = group_text caps 1, pname = group_text caps 2, defaultValue = group caps 3\<rparr>)"

text \<open>\<^verbatim>\<open>returnType.replace(/\s*\(.*?\)\s*/, '').trim() || 'void'\<close>\<close>

definition cleanReturnType :: "jsstring \<Rightarrow> jsstring" where
  "cleanReturnType rt =
     (let t = trim (replace_first annotation_regex [] rt) in if t = [] then js ''void'' else t)"

definition methodMatch :: "jsstring \<Rightarrow> method_record option" where
  "methodMatch line =
     (case search method_regex None 0 line of
        None \<Rightarrow> None
      | Some (i, n, caps) \<Rightarrow>
          Some \<lparr>returnType = cleanReturnType (group_text caps 1),
                signature = js ''**'' @ group_text caps 2 @ js ''**('' @ group_text caps 3 @ js '')''\<rparr>)"

text \<open>The search loops \<^verbatim>\<open>for (let i = startIndex; i < lines.length; i++)\<close> for a heading;
  \<open>None\<close> is the index \<^verbatim>\<open>-1\<close>.\<close>

function find_heading :: "jsstring \<Rightarrow> jsstring list \<Rightarrow> nat \<Rightarrow> nat option" where
  "find_heading h lines i =
     (if i < length lines
      then (if trim (lines ! i) = h then Some i else find_heading h lines (Suc i))
      else None)"
  by pat_completeness auto
termination
  by (relation "measure (\<lambda>(h, lines, i). length lines - i)") auto

declare find_heading.simps [simp del]

text \<open>The parse loops: they stop at the next line that starts with \<^verbatim>\<open>'## '\<close> and is not
  the heading of the section itself.\<close>

function collect_properties ::
  "jsstring list \<Rightarrow> nat \<Rightarrow> property_record list \<Rightarrow> property_record list" where
  "collect_properties lines i properties =
     (if i < length lines
      then (if startsWith (trim (lines ! i)) (js ''## '')
               \<and> trim (lines ! i) \<noteq> js ''## Property Descriptions''
            then properties
            else collect_properties lines (Suc i)
                   (case propertyMatch (trim (lines ! i)) of
                      None \<Rightarrow> properties
                    | Some p \<Rightarrow> properties @ [p]))
      else properties)"
  by pat_completeness auto
termination
  by (relation "measure (\<lambda>(lines, i, properties). length lines - i)") auto

declare collect_properties.simps [simp del]

function collect_methods ::
  "jsstring list \<Rightarrow> nat \<Rightarrow> method_record list \<Rightarrow> method_record list" where
  "collect_methods lines i methods =
     (if i < length lines
      then (if startsWith (trim (lines ! i)) (js ''## '')
               \<and> trim (lines ! i) \<noteq> js ''## Method Descriptions''
            then methods
            else collect_methods lines (Suc i)
                   (case methodMatch (trim (lines ! i)) of
                      None \<Rightarrow> methods
                    | Some m \<Rightarrow> methods @ [m]))
      else methods)"
  by pat_completeness auto
termination
  by (relation "measure (\<lambda>(lines, i, methods). length lines - i)") auto

declare collect_methods.simps [simp del]

text \<open>\<^verbatim>\<open>prop.defaultValue || ''\<close>\<close>

definition property_row :: "property_record \<Rightarrow> jsstring" where
  "property_row prop =
     (let defaultVal = (case defaultValue prop of None \<Rightarrow> [] | Some d \<Rightarrow> d)
      in js ''| '' @ ptype prop @ js '' | **'' @ pname prop @ js ''** | '' @ defaultVal @ js '' |'')"

definition method_row :: "method_record \<Rightarrow> jsstring" where
  "method_row m = js ''| '' @ returnType m @ js '' | '' @ signature m @ js '' |''"

definition properties_header :: jsstring where
  "properties_header = js ''| Type | Property | Default |\<newline>|------|----------|---------|''"

definition methods_header :: jsstring where
  "methods_header = js ''| Return Type | Method |\<newline>|-------------|--------|''"

text \<open>\<open>None\<close> is \<^verbatim>\<open>null\<close>.\<close>

definition extractPropertiesTable :: "jsstring list \<Rightarrow> nat \<Rightarrow> jsstring option" where
  "extractPropertiesTable lines startIndex =
     (case find_heading (js ''## Property Descriptions'') lines startIndex of
        None \<Rightarrow> None
      | Some propertyDescIndex \<Rightarrow>
          (let properties = collect_properties lines (Suc propertyDescIndex) [] in
           if length properties = 0 then None
           else Some (join_lines (properties_header # map property_row properties))))"

definition extractMethodsTable :: "jsstring list \<Rightarrow> nat \<Rightarrow> jsstring option" where
  "extractMethodsTable lines startIndex =
     (case find_heading (js ''## Method Descriptions'') lines startIndex of
        None \<Rightarrow> None
      | Some methodDescIndex \<Rightarrow>
          (let methods = collect_methods lines (Suc methodDescIndex) [] in
           if length methods = 0 then None
           else Some (join_lines (methods_header # map method_row methods))))"

text \<open>What \<^verbatim>\<open>if (table) { result.push(''); result.push(table); result.push(''); }\<close>
  appends: nothing for \<^verbatim>\<open>null\<close> and for the empty string.\<close>

definition table_lines :: "jsstring option \<Rightarrow> jsstring list" where
  "table_lines table =
     (case table of None \<Rightarrow> [] | Some t \<Rightarrow> if t = [] then [] else [[], t, []])"

text \<open>The \<^verbatim>\<open>while (i < lines.length)\<close> loop of \<^verbatim>\<open>reconstructTables\<close>.\<close>

function reconstruct_loop :: "jsstring list \<Rightarrow> nat \<Rightarrow> jsstring list \<Rightarrow> jsstring list" where
  "reconstruct_loop lines i result =
     (if i < length lines
      then (if trim (lines ! i) = js ''## Properties'' \<and> Suc i < length lines
               \<and> trim (lines ! Suc i) = js ''## Methods''
            then reconstruct_loop lines (Suc i)
                   (result @ [lines ! i] @ table_lines (extractPropertiesTable lines i))
            else if trim (lines ! i) = js ''## Methods'' \<and> Suc i < length lines
               \<and> trim (lines ! Suc i) = js ''## Property Descriptions''
            then reconstruct_loop lines (Suc i)
                   (result @ [lines ! i] @ table_lines (extractMethodsTable lines i))
            else reconstruct_loop lines (Suc i) (result @ [lines ! i]))
      else result)"
  by pat_completeness auto
termination
  by (relation "measure (\<lambda>(lines, i, result). length lines - i)") auto

declare reconstruct_loop.simps [simp del]

definition reconstructTables :: "jsstring \<Rightarrow> jsstring" where
  "reconstructTables content = join_lines (reconstruct_loop (split_lines content) 0 [])"

definition cleanupForLLM :: "jsstring \<Rightarrow> jsstring" where
  "cleanupForLLM content = reconstructTables (cleanup_text content)"

section \<open>The language filter\<close>

text \<open>
  \<^verbatim>\<open>language?: 'gdscript' | 'csharp' | 'both'\<close> of \<^verbatim>\<open>ConverterConfig\<close>: the field is
  optional, \<open>None\<close> is \<^verbatim>\<open>undefined\<close>.
\<close>

datatype language = GDScript | CSharp | Both

text \<open>The local variables of the loop of \<^verbatim>\<open>filterByLanguage\<close>.\<close>

record filter_state =
  insideTabsBlock :: bool
  insideTargetCodeTab :: bool
  insideOtherCodeTab :: bool
  tabsDepth :: nat
  filteredLines :: "jsstring list"

definition initial_filter_state :: filter_state where
  "initial_filter_state =
     \<lparr>insideTabsBlock = False, insideTargetCodeTab = False, insideOtherCodeTab = False,
      tabsDepth = 0, filteredLines = []\<rparr>"

text \<open>\<^verbatim>\<open>line.length - line.trimStart().length\<close>\<close>

definition indentation :: "jsstring \<Rightarrow> nat" where
  "indentation line = length line - length (trimStart line)"

text \<open>\<^verbatim>\<open>this.config.language === 'gdscript' ? 'gdscript' : 'csharp'\<close>\<close>

definition targetLanguage :: "language option \<Rightarrow> jsstring" where
  "targetLanguage lang = (if lang = Some GDScript then js ''gdscript'' else js ''csharp'')"

definition push_line :: "filter_state \<Rightarrow> jsstring \<Rightarrow> filter_state" where
  "push_line st line = st\<lparr>filteredLines := filteredLines st @ [line]\<rparr>"

text \<open>One iteration of the loop over the lines, in the order of the source's tests.\<close>

definition filter_step :: "language option \<Rightarrow> filter_state \<Rightarrow> jsstring \<Rightarrow> filter_state" where
  "filter_step lang st line =
     (let trimmed = trim line in
      if trimmed = js ''.. tabs::'' then
        push_line (st\<lparr>insideTabsBlock := True, tabsDepth := indentation line\<rparr>) line
      else if insideTabsBlock st then
        (let currentIndent = indentation line in
         if length trimmed > 0 \<and> currentIndent \<le> tabsDepth st
            \<and> \<not> startsWith trimmed (js ''..'') then
           push_line (st\<lparr>insideTabsBlock := False, insideTargetCodeTab := False,
                         insideOtherCodeTab := False\<rparr>) line
         else if startsWith trimmed (js ''.. code-tab::'') then
           (if includes_str trimmed (targetLanguage lang) then
              st\<lparr>insideTargetCodeTab := True, insideOtherCodeTab := False\<rparr>
            else
              st\<lparr>insideTargetCodeTab := False, insideOtherCodeTab := True\<rparr>)
         else if insideTargetCodeTab st then push_line st line
         else if insideOtherCodeTab st then st
         else if \<not> startsWith trimmed (js ''.. code-tab::'') then push_line st line
         else st)
      else push_line st line)"

definition filter_loop :: "language option \<Rightarrow> jsstring list \<Rightarrow> filter_state" where
  "filter_loop lang lines = foldl (filter_step lang) initial_filter_state lines"

definition filterByLanguage :: "language option \<Rightarrow> jsstring \<Rightarrow> jsstring" where
  "filterByLanguage lang content =
     (if lang = Some Both then content
      else join_lines (filteredLines (filter_loop lang (split_lines content))))"

section \<open>The orchestrator\<close>

text \<open>
  What \<^verbatim>\<open>convertRstToMarkdown\<close> takes from outside the program: the file system
  (\<^verbatim>\<open>readFileSync\<close>), the external converter run on the filtered text (the temporary
  file and \<^verbatim>\<open>execSync\<close>), and \<^verbatim>\<open>path.relative\<close>. The first two can throw.
\<close>

datatype error = ReadFailed | ConverterFailed

record environment =
  readFile :: "jsstring \<Rightarrow> error + jsstring"
  pandoc :: "jsstring \<Rightarrow> error + jsstring"
  relativePath :: "jsstring \<Rightarrow> jsstring"

text \<open>Every exception is rethrown as \<^verbatim>\<open>Pandoc conversion failed\<close>; the model keeps its
  cause.\<close>

definition convertRstToMarkdown ::
  "environment \<Rightarrow> language option \<Rightarrow> jsstring \<Rightarrow> error + jsstring" where
  "convertRstToMarkdown env lang rstFilePath =
     (case readFile env rstFilePath of
        Inl e \<Rightarrow> Inl e
      | Inr rstContent \<Rightarrow>
          (case pandoc env (filterByLanguage lang rstContent) of
             Inl e \<Rightarrow> Inl e
           | Inr result \<Rightarrow>
               Inr (js ''\<newline>\<newline>## '' @ relativePath env rstFilePath @ js ''\<newline>\<newline>''
                    @ cleanupForLLM result)))"

text \<open>
  The array \<^verbatim>\<open>results\<close>: \<open>None\<close> is a hole. One callback of a batch, when its
  conversion has completed: it stores a content that is not blank at its own index, and
  stores nothing when the conversion failed.
\<close>

definition complete ::
  "environment \<Rightarrow> language option \<Rightarrow> jsstring list \<Rightarrow> jsstring option list \<Rightarrow> nat \<Rightarrow>
   jsstring option list" where
  "complete env lang rstFiles results globalIndex =
     (case convertRstToMarkdown env lang (rstFiles ! globalIndex) of
        Inl e \<Rightarrow> results
      | Inr markdownContent \<Rightarrow>
          if trim markdownContent \<noteq> [] then results[globalIndex := Some markdownContent]
          else results)"

text \<open>
  A batch starting at \<open>i\<close>. Its callbacks complete in some order: \<open>order\<close> lists the
  batch indices \<^verbatim>\<open>batchIndex\<close> in the order of completion.
\<close>

definition run_batch ::
  "environment \<Rightarrow> language option \<Rightarrow> jsstring list \<Rightarrow> nat \<Rightarrow> nat list \<Rightarrow>
   jsstring option list \<Rightarrow> jsstring option list" where
  "run_batch env lang rstFiles i order results =
     foldl (\<lambda>res batchIndex. complete env lang rstFiles res (i + batchIndex)) results order"

text \<open>
  The loop \<^verbatim>\<open>for (let i = 0; i < rstFiles.length; i += concurrency)\<close>. With a concurrency
  of 0 it does not end; \<open>None\<close> stands for that. \<open>sched\<close> gives the completion order of
  each batch, by the number of the batch.
\<close>

partial_function (option) batch_loop ::
  "environment \<Rightarrow> language option \<Rightarrow> nat \<Rightarrow> (nat \<Rightarrow> nat list) \<Rightarrow> jsstring list \<Rightarrow> nat \<Rightarrow>
   jsstring option list \<Rightarrow> jsstring option list option" where
  "batch_loop env lang concurrency sched rstFiles i results =
     (if i < length rstFiles
      then batch_loop env lang concurrency sched rstFiles (i + concurrency)
             (run_batch env lang rstFiles i (sched (i div concurrency)) results)
      else Some results)"

text \<open>\<^verbatim>\<open>results.filter(result => result !== null)\<close>: holes are skipped.\<close>

definition convertFilesConcurrently ::
  "environment \<Rightarrow> language option \<Rightarrow> nat \<Rightarrow> (nat \<Rightarrow> nat list) \<Rightarrow> jsstring list \<Rightarrow>
   jsstring list option" where
  "convertFilesConcurrently env lang concurrency sched rstFiles =
     map_option (List.map_filter id)
       (batch_loop env lang concurrency sched rstFiles 0 (replicate (length rstFiles) None))"

section \<open>Tab blocks as the specification describes them\<close>

text \<open>
  A tab block starts at a \<^verbatim>\<open>.. tabs::\<close> directive line and extends over the following
  lines that are blank or indented strictly deeper than the directive. A code tab starts at
  a \<^verbatim>\<open>.. code-tab::\<close> directive line of the block and holds the lines of the block up to
  the next such directive. These notions are read off the text alone: \<open>in_tab_block lines d j\<close>
  says that line \<open>j\<close> lies in the block of the directive at line \<open>d\<close>, the last directive
  before it, and \<open>in_code_tab lines d c j\<close> that it lies there in the code tab of the
  directive at line \<open>c\<close>.
\<close>

definition is_tabs_directive :: "jsstring \<Rightarrow> bool" where
  "is_tabs_directive line \<longleftrightarrow> trim line = js ''.. tabs::''"

definition is_code_tab_directive :: "jsstring \<Rightarrow> bool" where
  "is_code_tab_directive line \<longleftrightarrow> startsWith (trim line) (js ''.. code-tab::'')"





section \<open>Notions used in the statements and proofs\<close>

text \<open>
  None of the definitions of this section is part of the converter. They name what the
  statements below speak about.
\<close>

text \<open>
  The two tests of the loop of \<^verbatim>\<open>reconstructTables\<close> at line \<open>i\<close>, and what the loop
  pushes after that line.
\<close>

definition properties_trigger :: "jsstring list \<Rightarrow> nat \<Rightarrow> bool" where
  "properties_trigger lines i \<longleftrightarrow>
     trim (lines ! i) = js ''## Properties'' \<and> Suc i < length lines \<and>
     trim (lines ! Suc i) = js ''## Methods''"

definition methods_trigger :: "jsstring list \<Rightarrow> nat \<Rightarrow> bool" where
  "methods_trigger lines i \<longleftrightarrow>
     trim (lines ! i) = js ''## Methods'' \<and> Suc i < length lines \<and>
     trim (lines ! Suc i) = js ''## Property Descriptions''"

definition inserted_after :: "jsstring list \<Rightarrow> nat \<Rightarrow> jsstring list" where
  "inserted_after lines i =
     (if properties_trigger lines i then table_lines (extractPropertiesTable lines i)
      else if methods_trigger lines i then table_lines (extractMethodsTable lines i)
      else [])"

text \<open>
  The lines of a Descriptions section, seen from line \<open>i\<close>: those after the first line
  that is the heading, up to the next line that starts with \<^verbatim>\<open>'## '\<close> and is not that
  heading.
\<close>

definition section_end :: "jsstring \<Rightarrow> jsstring \<Rightarrow> bool" where
  "section_end heading l \<longleftrightarrow> startsWith (trim l) (js ''## '') \<and> trim l \<noteq> heading"

definition description_section :: "jsstring \<Rightarrow> jsstring list \<Rightarrow> nat \<Rightarrow> jsstring list option" where
  "description_section heading lines i =
     (case dropWhile (\<lambda>l. trim l \<noteq> heading) (drop i lines) of
        [] \<Rightarrow> None
      | h # rest \<Rightarrow> Some (takeWhile (\<lambda>l. \<not> section_end heading l) rest))"

text \<open>
  A state reached by the matcher from a state \<open>s\<close>: its input is a suffix of the input of
  \<open>s\<close>, and each of its captures is one of \<open>s\<close> or is made of code units of the input of
  \<open>s\<close>.
\<close>

definition descends :: "mstate \<Rightarrow> mstate \<Rightarrow> bool" where
  "descends s s' \<longleftrightarrow>
     (\<exists>pre. remaining s = pre @ remaining s') \<and>
     (\<forall>g \<in> snd ` set (snd (snd s')). g \<in> snd ` set (snd (snd s)) \<or> set g \<subseteq> set (remaining s))"

text \<open>
  The states of a greedy iteration of a one-character class, longest first; the text of a
  replacement string; and the collapse of runs of spaces and tabs as a function on its own.
\<close>

fun class_states :: "(nat \<Rightarrow> bool) \<Rightarrow> nat option \<Rightarrow> jsstring \<Rightarrow> captures \<Rightarrow> mstate list" where
  "class_states P p [] caps = [(p, [], caps)]"
| "class_states P p (x # xs) caps =
     (if P x then class_states P (Some x) xs caps else []) @ [(p, x # xs, caps)]"


fun template_text :: "titem list \<Rightarrow> jsstring" where
  "template_text [] = []"
| "template_text (TLit s # t) = js s @ template_text t"
| "template_text (TGroup n # t) = template_text t"





text \<open>A schedule in which every callback of every batch completes exactly once.\<close>

definition fair_schedule :: "nat \<Rightarrow> (nat \<Rightarrow> nat list) \<Rightarrow> jsstring list \<Rightarrow> bool" where
  "fair_schedule concurrency sched rstFiles \<longleftrightarrow>
     (\<forall>j. j * concurrency < length rstFiles \<longrightarrow>
        distinct (sched j) \<and>
        set (sched j) = {0..<length (take concurrency (drop (j * concurrency) rstFiles))})"

text \<open>The documents converted with success, in the order of the input list.\<close>

definition converted :: "environment \<Rightarrow> language option \<Rightarrow> jsstring list \<Rightarrow> jsstring list" where
  "converted env lang rstFiles =
     List.map_filter (\<lambda>f. case convertRstToMarkdown env lang f of Inl e \<Rightarrow> None | Inr md \<Rightarrow> Some md)
       rstFiles"


text \<open>What a completed callback leaves at its index.\<close>

definition outcome :: "environment \<Rightarrow> language option \<Rightarrow> jsstring \<Rightarrow> jsstring option" where
  "outcome env lang f =
     (case convertRstToMarkdown env lang f of
        Inl e \<Rightarrow> None
      | Inr md \<Rightarrow> if trim md \<noteq> [] then Some md else None)"

text \<open>An environment, seven documents and a schedule for the examples: the converter
  fails on the third document, and in each batch the callbacks complete out of order.\<close>

definition example_environment :: environment where
  "example_environment =
     \<lparr>readFile = (\<lambda>path. Inr path),
      pandoc = (\<lambda>text. if text = js ''c'' then Inl ConverterFailed else Inr text),
      relativePath = (\<lambda>path. path)\<rparr>"

definition example_files :: "jsstring list" where
  "example_files = [js ''a'', js ''b'', js ''c'', js ''d'', js ''e'', js ''f'', js ''g'']"

definition example_schedule :: "nat \<Rightarrow> nat list" where
  "example_schedule j = (if j = 0 then [4, 2, 0, 3, 1] else [1, 0])"

text \<open>
  Lines of a known shape are run through an expression symbolically: \<open>leads r s s'\<close> says
  that \<open>r\<close> matches at the state \<open>s\<close> and that the match the engine reports, the first one in
  priority order, ends in the state \<open>s'\<close>. An identifier is what the expression
  \<open>[a-zA-Z_][a-zA-Z0-9_]*\<close> of the two declaration patterns matches in full.
\<close>

definition leads :: "regex \<Rightarrow> mstate \<Rightarrow> mstate \<Rightarrow> bool" where
  "leads r s s' \<longleftrightarrow> rmatch r s \<noteq> [] \<and> hd (rmatch r s) = s'"

definition is_identifier :: "jsstring \<Rightarrow> bool" where
  "is_identifier n \<longleftrightarrow>
     n \<noteq> [] \<and>
     in_class [rng CHR ''a'' CHR ''z'', rng CHR ''A'' CHR ''Z'', ch CHR ''_''] (hd n) \<and>
     (\<forall>c \<in> set (tl n).
        in_class [rng CHR ''a'' CHR ''z'', rng CHR ''A'' CHR ''Z'', rng CHR ''0'' CHR ''9'', ch CHR ''_''] c)"


text \<open>
  Line \<open>j\<close> is kept by the language filter when the iteration of its loop for that line
  appends the line to the output lines.
\<close>

definition kept :: "language option \<Rightarrow> jsstring list \<Rightarrow> nat \<Rightarrow> bool" where
  "kept lang lines j \<longleftrightarrow>
     filteredLines (filter_loop lang (take (Suc j) lines)) =
     filteredLines (filter_loop lang (take j lines)) @ [lines ! j]"


text \<open>
  The loop of \<^verbatim>\<open>reconstructTables\<close> as a function of the lines that remain, the same with
  every inserted table split into its lines, and the lines that a second run passes over:
  blank ones and those that start with a vertical bar.
\<close>

fun with_tables :: "jsstring list \<Rightarrow> jsstring list" where
  "with_tables [] = []"
| "with_tables (l # ls) = l # inserted_after (l # ls) 0 @ with_tables ls"

fun with_table_lines :: "jsstring list \<Rightarrow> jsstring list" where
  "with_table_lines [] = []"
| "with_table_lines (l # ls) =
     l # concat (map split_lines (inserted_after (l # ls) 0)) @ with_table_lines ls"

definition inert :: "jsstring \<Rightarrow> bool" where
  "inert l \<longleftrightarrow> trim l = [] \<or> (\<exists>s. trim l = 124 # s)"






section \<open>Evaluation\<close>

text \<open>
  Closed examples are computed by rewriting with the defining equations alone. The
  conditionals and case distinctions are rewritten in their condition first, so only the
  branch taken is unfolded. Lengths and indices stay in successor form, code units
  stay numerals.
\<close>

lemma ascii:
  "of_char (CHR 0x00) = (0::nat)"
  "of_char (CHR 0x01) = (1::nat)"
  "of_char (CHR 0x02) = (2::nat)"
  "of_char (CHR 0x03) = (3::nat)"
  "of_char (CHR 0x04) = (4::nat)"
  "of_char (CHR 0x05) = (5::nat)"
  "of_char (CHR 0x06) = (6::nat)"
  "of_char (CHR 0x07) = (7::nat)"
  "of_char (CHR 0x08) = (8::nat)"
  "of_char (CHR 0x09) = (9::nat)"
  "of_char (CHR 0x0A) = (10::nat)"
  "of_char (CHR 0x0B) = (11::nat)"
  "of_char (CHR 0x0C) = (12::nat)"
  "of_char (CHR 0x0D) = (13::nat)"
  "of_char (CHR 0x0E) = (14::nat)"
  "of_char (CHR 0x0F) = (15::nat)"
  "of_char (CHR 0x10) = (16::nat)"
  "of_char (CHR 0x11) = (17::nat)"
  "of_char (CHR 0x12) = (18::nat)"
  "of_char (CHR 0x13) = (19::nat)"
  "of_char (CHR 0x14) = (20::nat)"
  "of_char (CHR 0x15) = (21::nat)"
  "of_char (CHR 0x16) = (22::nat)"
  "of_char (CHR 0x17) = (23::nat)"
  "of_char (CHR 0x18) = (24::nat)"
  "of_char (CHR 0x19) = (25::nat)"
  "of_char (CHR 0x1A) = (26::nat)"
  "of_char (CHR 0x1B) = (27::nat)"
  "of_char (CHR 0x1C) = (28::nat)"
  "of_char (CHR 0x1D) = (29::nat)"
  "of_char (CHR 0x1E) = (30::nat)"
  "of_char (CHR 0x1F) = (31::nat)"
  "of_char (CHR 0x20) = (32::nat)"
  "of_char (CHR 0x21) = (33::nat)"
  "of_char (CHR 0x22) = (34::nat)"
  "of_char (CHR 0x23) = (35::nat)"
  "of_char (CHR 0x24) = (36::nat)"
  "of_char (CHR 0x25) = (37::nat)"
  "of_char (CHR 0x26) = (38::nat)"
  "of_char (CHR 0x27) = (39::nat)"
  "of_char (CHR 0x28) = (40::nat)"
  "of_char (CHR 0x29) = (41::nat)"
  "of_char (CHR 0x2A) = (42::nat)"
  "of_char (CHR 0x2B) = (43::nat)"
  "of_char (CHR 0x2C) = (44::nat)"
  "of_char (CHR 0x2D) = (45::nat)"
  "of_char (CHR 0x2E) = (46::nat)"
  "of_char (CHR 0x2F) = (47::nat)"
  "of_char (CHR 0x30) = (48::nat)"
  "of_char (CHR 0x31) = (49::nat)"
  "of_char (CHR 0x32) = (50::nat)"
  "of_char (CHR 0x33) = (51::nat)"
  "of_char (CHR 0x34) = (52::nat)"
  "of_char (CHR 0x35) = (53::nat)"
  "of_char (CHR 0x36) = (54::nat)"
  "of_char (CHR 0x37) = (55::nat)"
  "of_char (CHR 0x38) = (56::nat)"
  "of_char (CHR 0x39) = (57::nat)"
  "of_char (CHR 0x3A) = (58::nat)"
  "of_char (CHR 0x3B) = (59::nat)"
  "of_char (CHR 0x3C) = (60::nat)"
  "of_char (CHR 0x3D) = (61::nat)"
  "of_char (CHR 0x3E) = (62::nat)"
  "of_char (CHR 0x3F) = (63::nat)"
  "of_char (CHR 0x40) = (64::nat)"
  "of_char (CHR 0x41) = (65::nat)"
  "of_char (CHR 0x42) = (66::nat)"
  "of_char (CHR 0x43) = (67::nat)"
  "of_char (CHR 0x44) = (68::nat)"
  "of_char (CHR 0x45) = (69::nat)"
  "of_char (CHR 0x46) = (70::nat)"
  "of_char (CHR 0x47) = (71::nat)"
  "of_char (CHR 0x48) = (72::nat)"
  "of_char (CHR 0x49) = (73::nat)"
  "of_char (CHR 0x4A) = (74::nat)"
  "of_char (CHR 0x4B) = (75::nat)"
  "of_char (CHR 0x4C) = (76::nat)"
  "of_char (CHR 0x4D) = (77::nat)"
  "of_char (CHR 0x4E) = (78::nat)"
  "of_char (CHR 0x4F) = (79::nat)"
  "of_char (CHR 0x50) = (80::nat)"
  "of_char (CHR 0x51) = (81::nat)"
  "of_char (CHR 0x52) = (82::nat)"
  "of_char (CHR 0x53) = (83::nat)"
  "of_char (CHR 0x54) = (84::nat)"
  "of_char (CHR 0x55) = (85::nat)"
  "of_char (CHR 0x56) = (86::nat)"
  "of_char (CHR 0x57) = (87::nat)"
  "of_char (CHR 0x58) = (88::nat)"
  "of_char (CHR 0x59) = (89::nat)"
  "of_char (CHR 0x5A) = (90::nat)"
  "of_char (CHR 0x5B) = (91::nat)"
  "of_char (CHR 0x5C) = (92::nat)"
  "of_char (CHR 0x5D) = (93::nat)"
  "of_char (CHR 0x5E) = (94::nat)"
  "of_char (CHR 0x5F) = (95::nat)"
  "of_char (CHR 0x60) = (96::nat)"
  "of_char (CHR 0x61) = (97::nat)"
  "of_char (CHR 0x62) = (98::nat)"
  "of_char (CHR 0x63) = (99::nat)"
  "of_char (CHR 0x64) = (100::nat)"
  "of_char (CHR 0x65) = (101::nat)"
  "of_char (CHR 0x66) = (102::nat)"
  "of_char (CHR 0x67) = (103::nat)"
  "of_char (CHR 0x68) = (104::nat)"
  "of_char (CHR 0x69) = (105::nat)"
  "of_char (CHR 0x6A) = (106::nat)"
  "of_char (CHR 0x6B) = (107::nat)"
  "of_char (CHR 0x6C) = (108::nat)"
  "of_char (CHR 0x6D) = (109::nat)"
  "of_char (CHR 0x6E) = (110::nat)"
  "of_char (CHR 0x6F) = (111::nat)"
  "of_char (CHR 0x70) = (112::nat)"
  "of_char (CHR 0x71) = (113::nat)"
  "of_char (CHR 0x72) = (114::nat)"
  "of_char (CHR 0x73) = (115::nat)"
  "of_char (CHR 0x74) = (116::nat)"
  "of_char (CHR 0x75) = (117::nat)"
  "of_char (CHR 0x76) = (118::nat)"
  "of_char (CHR 0x77) = (119::nat)"
  "of_char (CHR 0x78) = (120::nat)"
  "of_char (CHR 0x79) = (121::nat)"
  "of_char (CHR 0x7A) = (122::nat)"
  "of_char (CHR 0x7B) = (123::nat)"
  "of_char (CHR 0x7C) = (124::nat)"
  "of_char (CHR 0x7D) = (125::nat)"
  "of_char (CHR 0x7E) = (126::nat)"
  "of_char (CHR 0x7F) = (127::nat)"
  by simp_all

lemma AtLeast_3: "AtLeast 3 r = Seq r (Seq r (Seq r (Star r)))"
  by (simp add: numeral_eq_Suc)

lemma AtLeast_4: "AtLeast 4 r = Seq r (Seq r (Seq r (Seq r (Star r))))"
  by (simp add: numeral_eq_Suc)

lemma UpTo_5:
  "UpTo 5 r = Opt (Seq r (Opt (Seq r (Opt (Seq r (Opt (Seq r (Opt (Seq r Eps)))))))))"
  by (simp add: numeral_eq_Suc)

lemmas ev_logic =
  simp_thms if_True if_False refl prod.case fst_conv snd_conv option.case option.distinct
  option.inject list.case list.distinct list.inject Let_def nat.case

lemmas ev_list =
  list.map append.simps append_Nil2 concat.simps filter.simps foldl.simps foldr.simps
  o_apply id_apply rev.simps dropWhile.simps take_Suc_Cons take_0 take.simps(1)
  drop_Suc_Cons drop_0 drop.simps(1) list.size(3,4) nth_Cons_0 nth_Cons_Suc
  list_ex_Nil_iff list_ex_Cons_iff map_of.simps fun_upd_apply zip_Cons_Cons zip_Nil

lemmas ev_nat =
  nat.inject nat.distinct Suc_less_eq Suc_le_mono zero_less_Suc less_nat_zero_code le0
  le_zero_eq diff_Suc_Suc minus_nat.diff_0 diff_0_eq_0 add_Suc add_0 add_Suc_right
  add_0_right less_irrefl_nat le_refl

lemmas ev_num = rel_simps ascii

lemmas ev_string =
  js_def isWhiteSpace_def isLineTerminator_def trim_def trimStart_def trimEnd_def
  startsWith_def split_lines_def indentation_def split_on.simps join_lines.simps
  includes_str.simps

lemmas ev_regex =
  lit_def cat_def ch_def rng_def Plus_def AtLeast_3 AtLeast_4 UpTo_5 ident_char_def
  isDigit_def isWordChar_def remaining_def step_char_def at_line_start_def at_line_end_def
  capture_def exec_at_def test_def group_def replace_all_def replace_first_def apply_rules_def
  in_class_def in_cclass.simps iterate.simps iterate_lazy.simps rmatch.simps search.simps expand.simps
  replace_from.simps

lemmas ev_cleaner =
  cleanupForLLM_def cleanup_text_def removeImageReferences_def markup_rules_def
  repair_rules_def keep_line_def

lemmas ev_table =
  reconstructTables_def reconstruct_loop.simps find_heading.simps collect_properties.simps
  collect_methods.simps extractPropertiesTable_def extractMethodsTable_def table_lines_def
  propertyMatch_def methodMatch_def cleanReturnType_def property_regex_def method_regex_def
  annotation_regex_def ident_regex_def group_text_def property_row_def method_row_def
  properties_header_def methods_header_def property_record.simps method_record.simps

lemmas ev_filter =
  filterByLanguage_def filter_loop_def filter_step_def initial_filter_state_def push_line_def
  targetLanguage_def filter_state.simps language.distinct is_tabs_directive_def
  is_code_tab_directive_def kept_def

lemmas ev_orchestrator =
  convertRstToMarkdown_def converted_def map_filter_simps example_environment_def
  example_files_def environment.simps sum.case sum.inject sum.distinct filterByLanguage_def

lemmas ev_congs =
  if_weak_cong option.case_cong_weak list.case_cong_weak prod.case_cong_weak
  nat.case_cong_weak

lemmas ev_shape =
  properties_trigger_def methods_trigger_def inserted_after_def is_identifier_def list.sel
  list.set ball_simps bex_simps insert_iff empty_iff upt.simps



lemmas ev = ev_logic ev_list ev_nat ev_num ev_string ev_regex

section \<open>Lines\<close>


lemma split_on_not_Nil [simp]: "split_on d s \<noteq> []"
  by (induction s) (auto split: list.splits)

lemma split_on_no_delim: "d \<notin> set s \<Longrightarrow> split_on d s = [s]"
  by (induction s) auto

lemma split_on_append:
  "split_on d (a @ d # b) = split_on d a @ split_on d b"
  by (induction a) (auto split: list.splits)

lemma split_on_lines_no_delim: "l \<in> set (split_on d s) \<Longrightarrow> d \<notin> set l"
  by (induction s arbitrary: l) (auto split: if_splits list.splits)

lemma join_lines_Cons: "ls \<noteq> [] \<Longrightarrow> join_lines (l # ls) = l @ 10 # join_lines ls"
  by (cases ls) auto

lemma join_split_lines [simp]: "join_lines (split_lines s) = s"
  unfolding split_lines_def
proof (induction s)
  case Nil
  show ?case by simp
next
  case (Cons c s)
  show ?case
  proof (cases "c = 10")
    case True
    then show ?thesis using Cons by (simp add: join_lines_Cons)
  next
    case False
    obtain l ls where sp: "split_on 10 s = l # ls"
      by (cases "split_on 10 s") auto
    with Cons have "join_lines (l # ls) = s" by simp
    then have "join_lines ((c # l) # ls) = c # s"
      by (cases ls) auto
    with False sp show ?thesis by simp
  qed
qed

lemma split_join_lines:
  "ls \<noteq> [] \<Longrightarrow> split_lines (join_lines ls) = concat (map split_lines ls)"
  unfolding split_lines_def
proof (induction ls rule: join_lines.induct)
  case 1
  then show ?case by simp
next
  case (2 l)
  show ?case by simp
next
  case (3 l l' ls)
  then show ?case
    by (simp add: split_on_append)
qed



section \<open>The matcher\<close>

subsection \<open>What a match is made of\<close>

lemma descends_refl: "descends s s"
  by (auto simp: descends_def)

lemma descends_trans: "descends s s1 \<Longrightarrow> descends s1 s2 \<Longrightarrow> descends s s2"
  unfolding descends_def
proof (intro conjI ballI)
  assume a: "(\<exists>pre. remaining s = pre @ remaining s1) \<and>
     (\<forall>g \<in> snd ` set (snd (snd s1)). g \<in> snd ` set (snd (snd s)) \<or> set g \<subseteq> set (remaining s))"
    and b: "(\<exists>pre. remaining s1 = pre @ remaining s2) \<and>
     (\<forall>g \<in> snd ` set (snd (snd s2)). g \<in> snd ` set (snd (snd s1)) \<or> set g \<subseteq> set (remaining s1))"
  from a obtain p1 where p1: "remaining s = p1 @ remaining s1" by blast
  from b obtain p2 where p2: "remaining s1 = p2 @ remaining s2" by blast
  from p1 p2 show "\<exists>pre. remaining s = pre @ remaining s2" by simp
  fix g assume g: "g \<in> snd ` set (snd (snd s2))"
  from p1 have sub: "set (remaining s1) \<subseteq> set (remaining s)" by auto
  from b g have "g \<in> snd ` set (snd (snd s1)) \<or> set g \<subseteq> set (remaining s1)" by blast
  with a sub show "g \<in> snd ` set (snd (snd s)) \<or> set g \<subseteq> set (remaining s)" by blast
qed

lemma step_char_descends: "s' \<in> set (step_char P s) \<Longrightarrow> descends s s'"
  by (cases s) (auto simp: step_char_def descends_def remaining_def split: list.splits if_splits)

lemma iterate_descends:
  assumes f: "\<And>s s'. s' \<in> set (f s) \<Longrightarrow> descends s s'"
  shows "s' \<in> set (iterate n f s) \<Longrightarrow> descends s s'"
proof (induction n arbitrary: s)
  case 0
  then show ?case by (simp add: descends_refl)
next
  case (Suc n)
  from Suc.prems consider "s' = s" | s1 where "s1 \<in> set (f s)" "s' \<in> set (iterate n f s1)"
    by auto
  then show ?case
  proof cases
    case 1
    then show ?thesis by (simp add: descends_refl)
  next
    case 2
    then show ?thesis using f Suc.IH descends_trans by blast
  qed
qed

lemma iterate_lazy_descends:
  assumes f: "\<And>s s'. s' \<in> set (f s) \<Longrightarrow> descends s s'"
  shows "s' \<in> set (iterate_lazy n f s) \<Longrightarrow> descends s s'"
proof (induction n arbitrary: s)
  case 0
  then show ?case by (simp add: descends_refl)
next
  case (Suc n)
  from Suc.prems consider "s' = s" | s1 where "s1 \<in> set (f s)" "s' \<in> set (iterate_lazy n f s1)"
    by auto
  then show ?case
  proof cases
    case 1
    then show ?thesis by (simp add: descends_refl)
  next
    case 2
    then show ?thesis using f Suc.IH descends_trans by blast
  qed
qed

lemma capture_descends: "descends s s1 \<Longrightarrow> descends s (capture n s s1)"
proof -
  assume d: "descends s s1"
  obtain p xs caps where s1: "s1 = (p, xs, caps)" by (cases s1)
  have "set (take (length (remaining s) - length xs) (remaining s)) \<subseteq> set (remaining s)"
    by (rule set_take_subset)
  with d show ?thesis
    by (auto simp: descends_def capture_def s1 remaining_def)
qed

lemma rmatch_descends: "s' \<in> set (rmatch r s) \<Longrightarrow> descends s s'"
proof (induction r s arbitrary: s' rule: rmatch.induct)
  case (7 a b s)
  from "7.prems" obtain s1 where s1: "s1 \<in> set (rmatch a s)" "s' \<in> set (rmatch b s1)"
    by auto
  from "7.IH"(1)[OF s1(1)] "7.IH"(2)[OF s1] show ?case
    by (rule descends_trans)
next
  case (9 r s)
  then show ?case using iterate_descends[of "rmatch r"] by simp
next
  case (10 r s)
  then show ?case using iterate_lazy_descends[of "rmatch r"] by simp
next
  case (11 n r s)
  from "11.prems" obtain s1 where s1: "s1 \<in> set (rmatch r s)" "s' = capture n s s1"
    by auto
  from "11.IH"[OF s1(1)] s1(2) show ?case
    by (simp add: capture_descends)
qed (auto simp: step_char_descends descends_refl split: if_splits)

lemma iterate_step_char:
  "length xs \<le> n \<Longrightarrow> iterate n (step_char P) (p, xs, caps) = class_states P p xs caps"
proof (induction xs arbitrary: n p)
  case Nil
  show ?case by (cases n) (simp_all add: step_char_def)
next
  case (Cons x xs)
  then obtain n' where n: "n = Suc n'" "length xs \<le> n'"
    by (cases n) auto
  show ?case
    using Cons.IH[OF n(2)] by (simp add: n step_char_def remaining_def)
qed

lemma class_states_hd:
  "hd (class_states P p xs caps) =
     (if takeWhile P xs = [] then p else Some (last (takeWhile P xs)), dropWhile P xs, caps)"
proof (induction xs arbitrary: p)
  case Nil
  show ?case by simp
next
  case (Cons x xs)
  have ne: "class_states P (Some x) xs caps \<noteq> []"
    by (cases xs) auto
  show ?case
    using Cons.IH[of "Some x"] ne by (auto simp: hd_append)
qed

lemma class_states_not_Nil [simp]: "class_states P p xs caps \<noteq> []"
  by (cases xs) auto

text \<open>Every state but the first still stands before a code unit of the class.\<close>

lemma class_states_tl:
  "s \<in> set (tl (class_states P p xs caps)) \<Longrightarrow>
   \<exists>q c ys. s = (q, c # ys, caps) \<and> P c"
proof (induction xs arbitrary: p)
  case Nil
  then show ?case by simp
next
  case (Cons x xs)
  show ?case
  proof (cases "P x")
    case False
    with Cons.prems show ?thesis by simp
  next
    case True
    with Cons.prems have "s \<in> set (tl (class_states P (Some x) xs caps)) \<or> s = (p, x # xs, caps)"
      by (auto simp: tl_append split: list.splits)
    with Cons.IH True show ?thesis by blast
  qed
qed

subsection \<open>Where the code units of a replacement come from\<close>

lemma exec_at_Some:
  assumes "exec_at r p xs = Some (n, caps)"
  shows "n \<le> length xs" and "\<forall>g \<in> snd ` set caps. set g \<subseteq> set xs"
proof -
  from assms obtain s' rest where r: "rmatch r (p, xs, []) = s' # rest"
    and n: "n = length xs - length (remaining s')" and c: "caps = snd (snd s')"
    by (auto simp: exec_at_def split: list.splits)
  from r have "descends (p, xs, []) s'"
    using rmatch_descends[of s' r "(p, xs, [])"] by simp
  with n c show "n \<le> length xs" and "\<forall>g \<in> snd ` set caps. set g \<subseteq> set xs"
    by (auto simp: descends_def remaining_def)
qed

lemma group_in_captures: "group caps n = Some g \<Longrightarrow> g \<in> snd ` set caps"
  by (auto simp: group_def dest!: map_of_SomeD intro: rev_image_eqI)

lemma expand_chars:
  "set (expand t caps) \<subseteq> set (template_text t) \<union> (\<Union>g \<in> snd ` set caps. set g)"
proof (induction t caps rule: expand.induct)
  case (1 caps)
  show ?case by simp
next
  case (2 s t caps)
  then show ?case by auto
next
  case (3 n t caps)
  show ?case
  proof (cases "group caps n")
    case None
    with 3 show ?thesis by auto
  next
    case (Some g)
    from group_in_captures[OF Some] have "set g \<subseteq> (\<Union>g \<in> snd ` set caps. set g)"
      by blast
    with 3 Some show ?thesis by auto
  qed
qed



lemma rmatch_Chars_fun: "rmatch (Chars cs) = step_char (in_class cs)"
  by (rule ext) simp

lemma rmatch_Star_Chars:
  "rmatch (Star (Chars cs)) (p, xs, caps) = class_states (in_class cs) p xs caps"
  by (simp add: rmatch_Chars_fun remaining_def iterate_step_char)












lemma set_trim: "set (trim s) \<subseteq> set s"
proof -
  have "set (trimEnd (trimStart s)) \<subseteq> set (trimStart s)"
    unfolding trimEnd_def using set_dropWhileD[of _ isWhiteSpace "rev (trimStart s)"] by auto
  moreover have "set (trimStart s) \<subseteq> set s"
    unfolding trimStart_def using set_dropWhileD[of _ isWhiteSpace s] by auto
  ultimately show ?thesis by (simp add: trim_def)
qed





lemma js_no_tab_literals:
  "9 \<notin> set (js '' '')" "9 \<notin> set (js ''() '')" "9 \<notin> set (js ''\<newline>\<newline>'')"
  by (simp_all add: js_def)





section \<open>The loops of the table reconstruction\<close>


lemma reconstruct_loop_closed:
  "reconstruct_loop lines i result =
   result @ concat (map (\<lambda>k. lines ! k # inserted_after lines k) [i..<length lines])"
proof (induction lines i result rule: reconstruct_loop.induct)
  case (1 lines i result)
  show ?case
  proof (cases "i < length lines")
    case False
    then show ?thesis by (simp add: reconstruct_loop.simps)
  next
    case True
    then have upt: "[i..<length lines] = i # [Suc i..<length lines]"
      by (simp add: upt_conv_Cons)
    show ?thesis
      using True "1.IH" 
      by (subst reconstruct_loop.simps)
        (auto simp: upt inserted_after_def properties_trigger_def methods_trigger_def)
  qed
qed


subsection \<open>The extraction loops as list functions\<close>

lemma find_heading_drop:
  "find_heading h lines i =
     (if dropWhile (\<lambda>l. trim l \<noteq> h) (drop i lines) = [] then None
      else Some (i + length (takeWhile (\<lambda>l. trim l \<noteq> h) (drop i lines))))"
proof (induction h lines i rule: find_heading.induct)
  case (1 h lines i)
  show ?case
  proof (cases "i < length lines")
    case False
    then show ?thesis by (simp add: find_heading.simps)
  next
    case True
    then have d: "drop i lines = lines ! i # drop (Suc i) lines"
      by (simp add: Cons_nth_drop_Suc)
    show ?thesis
      using True "1.IH" by (subst find_heading.simps) (simp add: d)
  qed
qed

lemma collect_properties_drop:
  "collect_properties lines i acc =
     acc @ List.map_filter (\<lambda>l. propertyMatch (trim l))
       (takeWhile (\<lambda>l. \<not> section_end (js ''## Property Descriptions'') l) (drop i lines))"
proof (induction lines i acc rule: collect_properties.induct)
  case (1 lines i acc)
  show ?case
  proof (cases "i < length lines")
    case False
    then show ?thesis by (simp add: collect_properties.simps map_filter_simps)
  next
    case True
    then have d: "drop i lines = lines ! i # drop (Suc i) lines"
      by (simp add: Cons_nth_drop_Suc)
    show ?thesis
      using True "1.IH"
      by (subst collect_properties.simps)
        (auto simp: d section_end_def map_filter_simps split: option.splits)
  qed
qed

lemma collect_methods_drop:
  "collect_methods lines i acc =
     acc @ List.map_filter (\<lambda>l. methodMatch (trim l))
       (takeWhile (\<lambda>l. \<not> section_end (js ''## Method Descriptions'') l) (drop i lines))"
proof (induction lines i acc rule: collect_methods.induct)
  case (1 lines i acc)
  show ?case
  proof (cases "i < length lines")
    case False
    then show ?thesis by (simp add: collect_methods.simps map_filter_simps)
  next
    case True
    then have d: "drop i lines = lines ! i # drop (Suc i) lines"
      by (simp add: Cons_nth_drop_Suc)
    show ?thesis
      using True "1.IH"
      by (subst collect_methods.simps)
        (auto simp: d section_end_def map_filter_simps split: option.splits)
  qed
qed

lemma drop_after_heading:
  assumes "dropWhile P (drop i lines) = h # rest"
  shows "drop (Suc (i + length (takeWhile P (drop i lines)))) lines = rest"
proof -
  have "drop (length (takeWhile P (drop i lines))) (drop i lines) = h # rest"
    using assms by (simp add: dropWhile_eq_drop)
  then have "drop (i + length (takeWhile P (drop i lines))) lines = h # rest"
    by (simp add: add.commute)
  then show ?thesis
    by (metis drop_Suc list.sel(3) tl_drop)
qed

lemma extractPropertiesTable_closed:
  "extractPropertiesTable lines i =
     (case description_section (js ''## Property Descriptions'') lines i of
        None \<Rightarrow> None
      | Some sec \<Rightarrow>
          (let properties = List.map_filter (\<lambda>l. propertyMatch (trim l)) sec in
           if properties = [] then None
           else Some (join_lines (properties_header # map property_row properties))))"
proof (cases "dropWhile (\<lambda>l. trim l \<noteq> js ''## Property Descriptions'') (drop i lines)")
  case Nil
  show ?thesis
    unfolding extractPropertiesTable_def find_heading_drop description_section_def Nil
    by simp
next
  case (Cons h rest)
  from drop_after_heading[OF Cons] Cons show ?thesis
    by (simp add: extractPropertiesTable_def find_heading_drop description_section_def
        collect_properties_drop Let_def)
qed

lemma extractMethodsTable_closed:
  "extractMethodsTable lines i =
     (case description_section (js ''## Method Descriptions'') lines i of
        None \<Rightarrow> None
      | Some sec \<Rightarrow>
          (let methods = List.map_filter (\<lambda>l. methodMatch (trim l)) sec in
           if methods = [] then None
           else Some (join_lines (methods_header # map method_row methods))))"
proof (cases "dropWhile (\<lambda>l. trim l \<noteq> js ''## Method Descriptions'') (drop i lines)")
  case Nil
  show ?thesis
    unfolding extractMethodsTable_def find_heading_drop description_section_def Nil
    by simp
next
  case (Cons h rest)
  from drop_after_heading[OF Cons] Cons show ?thesis
    by (simp add: extractMethodsTable_def find_heading_drop description_section_def
        collect_methods_drop Let_def)
qed

subsection \<open>What a table is made of\<close>

lemma search_Some:
  assumes "search r p i xs = Some (j, n, caps)"
  shows "\<forall>g \<in> snd ` set caps. set g \<subseteq> set xs"
  using assms
proof (induction xs arbitrary: p i)
  case Nil
  then obtain a where a: "exec_at r p [] = Some a" by (cases "exec_at r p []") auto
  obtain n' caps' where "a = (n', caps')" by (cases a)
  with a Nil exec_at_Some(2)[of r p "[]" n' caps'] show ?case by auto
next
  case (Cons x xs)
  show ?case
  proof (cases "exec_at r p (x # xs)")
    case None
    with Cons.prems have "search r (Some x) (Suc i) xs = Some (j, n, caps)" by simp
    from Cons.IH[OF this] show ?thesis by auto
  next
    case (Some a)
    obtain n' caps' where a: "a = (n', caps')" by (cases a)
    with Some Cons.prems have "caps' = caps" by simp
    with exec_at_Some(2)[OF Some[unfolded a]] show ?thesis by simp
  qed
qed

lemma group_text_chars:
  "\<forall>g \<in> snd ` set caps. set g \<subseteq> A \<Longrightarrow> set (group_text caps n) \<subseteq> A \<union> set (js ''undefined'')"
  by (auto simp: group_text_def split: option.splits dest!: group_in_captures)

lemma propertyMatch_chars:
  assumes "propertyMatch l = Some p"
  shows "set (ptype p) \<subseteq> set l \<union> set (js ''undefined'')"
    and "set (pname p) \<subseteq> set l \<union> set (js ''undefined'')"
    and "\<And>d. defaultValue p = Some d \<Longrightarrow> set d \<subseteq> set l"
proof -
  from assms obtain i n caps where s: "search property_regex None 0 l = Some (i, n, caps)"
    and p: "p = \<lparr>ptype = group_text caps 1, pname = group_text caps 2, defaultValue = group caps 3\<rparr>"
    by (auto simp: propertyMatch_def split: option.splits)
  note c = search_Some[OF s]
  from group_text_chars[OF c] p show "set (ptype p) \<subseteq> set l \<union> set (js ''undefined'')"
    and "set (pname p) \<subseteq> set l \<union> set (js ''undefined'')" by simp_all
  fix d assume "defaultValue p = Some d"
  with p have "group caps 3 = Some d" by simp
  from group_in_captures[OF this] c show "set d \<subseteq> set l" by auto
qed

lemma property_row_chars:
  assumes "propertyMatch l = Some p"
  shows "set (property_row p) \<subseteq> set l \<union> set (js ''undefined| *'')"
proof -
  have "set (case defaultValue p of None \<Rightarrow> [] | Some d \<Rightarrow> d) \<subseteq> set l"
  proof (cases "defaultValue p")
    case None
    then show ?thesis by simp
  next
    case (Some d)
    with propertyMatch_chars(3)[OF assms Some] show ?thesis by simp
  qed
  with propertyMatch_chars(1,2)[OF assms] show ?thesis
    by (auto simp: property_row_def Let_def js_def)
qed

lemma replace_first_chars: "set (replace_first r t s) \<subseteq> set s \<union> set (template_text t)"
proof (cases "search r None 0 s")
  case None
  then show ?thesis by (simp add: replace_first_def)
next
  case (Some a)
  obtain i n caps where a: "a = (i, n, caps)" by (cases a)
  have "set (expand t caps) \<subseteq> set s \<union> set (template_text t)"
    using search_Some[OF Some[unfolded a]] expand_chars[of t caps] by blast
  moreover have "set (take i s) \<subseteq> set s" "set (drop (i + n) s) \<subseteq> set s"
    by (auto dest: in_set_takeD in_set_dropD)
  ultimately show ?thesis
    by (auto simp: replace_first_def Some a)
qed

lemma cleanReturnType_chars: "set (cleanReturnType rt) \<subseteq> set rt \<union> set (js ''void'')"
  using replace_first_chars[of annotation_regex "[]" rt] set_trim[of "replace_first annotation_regex [] rt"]
  by (auto simp: cleanReturnType_def Let_def)

lemma method_row_chars:
  assumes "methodMatch l = Some m"
  shows "set (method_row m) \<subseteq> set l \<union> set (js ''undefinedvoid| *()'')"
proof -
  from assms obtain i n caps where s: "search method_regex None 0 l = Some (i, n, caps)"
    and m: "m = \<lparr>returnType = cleanReturnType (group_text caps 1),
                signature = js ''**'' @ group_text caps 2 @ js ''**('' @ group_text caps 3 @ js '')''\<rparr>"
    by (auto simp: methodMatch_def split: option.splits)
  note c = group_text_chars[OF search_Some[OF s]]
  have "set (cleanReturnType (group_text caps 1)) \<subseteq> set l \<union> set (js ''undefined'') \<union> set (js ''void'')"
    using cleanReturnType_chars[of "group_text caps 1"] c[of 1] by blast
  with c[of 2] c[of 3] show ?thesis
    by (auto simp: method_row_def m js_def)
qed


lemma description_section_subset:
  "description_section h lines i = Some sec \<Longrightarrow> set sec \<subseteq> set lines"
proof -
  assume a: "description_section h lines i = Some sec"
  then obtain hd rest where d: "dropWhile (\<lambda>l. trim l \<noteq> h) (drop i lines) = hd # rest"
    and sec: "sec = takeWhile (\<lambda>l. \<not> section_end h l) rest"
    by (auto simp: description_section_def split: list.splits)
  have "set rest \<subseteq> set (dropWhile (\<lambda>l. trim l \<noteq> h) (drop i lines))"
    by (auto simp: d)
  also have "\<dots> \<subseteq> set (drop i lines)"
    by (auto dest: set_dropWhileD)
  also have "\<dots> \<subseteq> set lines"
    by (rule set_drop_subset)
  finally have "set rest \<subseteq> set lines" .
  moreover have "set sec \<subseteq> set rest"
    unfolding sec by (auto dest: set_takeWhileD)
  ultimately show ?thesis by blast
qed

lemma map_filter_mem:
  "y \<in> set (List.map_filter f xs) \<Longrightarrow> \<exists>x \<in> set xs. f x = Some y"
  by (induction xs) (auto simp: map_filter_simps split: option.splits)




lemma inserted_after_cases:
  "x \<in> set (inserted_after lines i) \<Longrightarrow>
   x = [] \<or> extractPropertiesTable lines i = Some x \<or> extractMethodsTable lines i = Some x"
  by (auto simp: inserted_after_def table_lines_def split: if_splits option.splits)



section \<open>Blank lines\<close>

lemma trim_Nil_iff: "trim l = [] \<longleftrightarrow> (\<forall>c \<in> set l. isWhiteSpace c)"
proof -
  have "trim l = [] \<longleftrightarrow> (\<forall>c \<in> set (dropWhile isWhiteSpace l). isWhiteSpace c)"
    by (simp add: trim_def trimEnd_def trimStart_def dropWhile_eq_Nil_conv)
  also have "\<dots> \<longleftrightarrow> (\<forall>c \<in> set l. isWhiteSpace c)"
  proof
    assume a: "\<forall>c \<in> set (dropWhile isWhiteSpace l). isWhiteSpace c"
    then have "dropWhile isWhiteSpace l = []"
      using hd_dropWhile[of isWhiteSpace l] by (cases "dropWhile isWhiteSpace l") auto
    then show "\<forall>c \<in> set l. isWhiteSpace c"
      by (simp add: dropWhile_eq_Nil_conv)
  next
    assume "\<forall>c \<in> set l. isWhiteSpace c"
    then show "\<forall>c \<in> set (dropWhile isWhiteSpace l). isWhiteSpace c"
      by (auto dest: set_dropWhileD)
  qed
  finally show ?thesis .
qed

















section \<open>Lines of a documented shape\<close>

subsection \<open>The match the engine reports\<close>

lemma rmatch_Star_NotChars:
  "rmatch (Star (NotChars cs)) (p, xs, caps) = class_states (\<lambda>c. \<not> in_class cs c) p xs caps"
proof -
  have "rmatch (NotChars cs) = step_char (\<lambda>c. \<not> in_class cs c)"
    by (rule ext) simp
  then show ?thesis
    by (simp add: remaining_def iterate_step_char)
qed

lemma rmatch_Star_Dot:
  "rmatch (Star Dot) (p, xs, caps) = class_states (\<lambda>c. \<not> isLineTerminator c) p xs caps"
proof -
  have "rmatch Dot = step_char (\<lambda>c. \<not> isLineTerminator c)"
    by (rule ext) simp
  then show ?thesis
    by (simp add: remaining_def iterate_step_char)
qed

lemma leads_Seq: "leads a s s1 \<Longrightarrow> leads b s1 s2 \<Longrightarrow> leads (Seq a b) s s2"
proof -
  assume a: "leads a s s1" and b: "leads b s1 s2"
  from a obtain xs where xs: "rmatch a s = s1 # xs"
    by (cases "rmatch a s") (auto simp: leads_def)
  from b obtain ys where ys: "rmatch b s1 = s2 # ys"
    by (cases "rmatch b s1") (auto simp: leads_def)
  from xs ys show ?thesis by (simp add: leads_def)
qed

lemma leads_Eps: "leads Eps s s"
  by (simp add: leads_def)

lemma leads_Bol_start: "leads (Bol m) (None, xs, caps) (None, xs, caps)"
  by (simp add: leads_def at_line_start_def)

lemma leads_Chars: "in_class cs x \<Longrightarrow> leads (Chars cs) (p, x # xs, caps) (Some x, xs, caps)"
  by (simp add: leads_def step_char_def)

lemma leads_Group: "leads r s s1 \<Longrightarrow> leads (Group n r) s (capture n s s1)"
  by (auto simp: leads_def hd_map)

lemma leads_Opt_taken: "leads r s s1 \<Longrightarrow> leads (Opt r) s s1"
  by (cases "rmatch r s") (auto simp: leads_def)

lemma leads_Opt_skipped: "rmatch r s = [] \<Longrightarrow> leads (Opt r) s s"
  by (simp add: leads_def)

lemma takeWhile_run:
  "\<forall>c \<in> set w. P c \<Longrightarrow> xs = [] \<or> \<not> P (hd xs) \<Longrightarrow> takeWhile P (w @ xs) = w"
  by (cases xs) (auto simp: takeWhile_append2)

lemma dropWhile_run:
  "\<forall>c \<in> set w. P c \<Longrightarrow> xs = [] \<or> \<not> P (hd xs) \<Longrightarrow> dropWhile P (w @ xs) = xs"
  by (cases xs) (auto simp: dropWhile_append2)

lemma leads_class_states:
  assumes "\<forall>c \<in> set w. P c" and "xs = [] \<or> \<not> P (hd xs)"
  shows "class_states P p (w @ xs) caps \<noteq> []"
    and "hd (class_states P p (w @ xs) caps) = (if w = [] then p else Some (last w), xs, caps)"
  by (simp_all add: class_states_hd takeWhile_run[OF assms] dropWhile_run[OF assms])

lemma leads_Star_Chars:
  assumes "\<forall>c \<in> set w. in_class cs c" and "xs = [] \<or> \<not> in_class cs (hd xs)"
  shows "leads (Star (Chars cs)) (p, w @ xs, caps) (if w = [] then p else Some (last w), xs, caps)"
  unfolding leads_def rmatch_Star_Chars
  using leads_class_states[OF assms] by simp

lemma leads_Star_NotChars:
  assumes "\<forall>c \<in> set w. \<not> in_class cs c" and "xs = [] \<or> in_class cs (hd xs)"
  shows "leads (Star (NotChars cs)) (p, w @ xs, caps) (if w = [] then p else Some (last w), xs, caps)"
  unfolding leads_def rmatch_Star_NotChars
  using leads_class_states[of w "\<lambda>c. \<not> in_class cs c" xs p caps] assms by simp

lemma leads_Plus_Chars:
  assumes "w \<noteq> []" and "\<forall>c \<in> set w. in_class cs c" and "xs = [] \<or> \<not> in_class cs (hd xs)"
  shows "leads (Plus (Chars cs)) (p, w @ xs, caps) (Some (last w), xs, caps)"
proof -
  from assms(1) obtain x w' where w: "w = x # w'" by (cases w) auto
  have 1: "leads (Chars cs) (p, x # w' @ xs, caps) (Some x, w' @ xs, caps)"
    using assms(2) w by (simp add: leads_Chars)
  have 2: "leads (Star (Chars cs)) (Some x, w' @ xs, caps)
      (if w' = [] then Some x else Some (last w'), xs, caps)"
    using assms(2,3) w by (intro leads_Star_Chars) auto
  from leads_Seq[OF 1 2] show ?thesis
    by (cases "w' = []") (simp_all add: Plus_def w)
qed

lemma leads_Plus_NotChars:
  assumes "w \<noteq> []" and "\<forall>c \<in> set w. \<not> in_class cs c" and "xs = [] \<or> in_class cs (hd xs)"
  shows "leads (Plus (NotChars cs)) (p, w @ xs, caps) (Some (last w), xs, caps)"
proof -
  from assms(1) obtain x w' where w: "w = x # w'" by (cases w) auto
  have 1: "leads (NotChars cs) (p, x # w' @ xs, caps) (Some x, w' @ xs, caps)"
    using assms(2) w by (simp add: leads_def step_char_def)
  have 2: "leads (Star (NotChars cs)) (Some x, w' @ xs, caps)
      (if w' = [] then Some x else Some (last w'), xs, caps)"
    using assms(2,3) w by (intro leads_Star_NotChars) auto
  from leads_Seq[OF 1 2] show ?thesis
    by (cases "w' = []") (simp_all add: Plus_def w)
qed

lemma leads_lit:
  "w \<noteq> [] \<Longrightarrow> leads (lit w) (p, js w @ xs, caps) (Some (of_char (last w)), xs, caps)"
proof (induction w arbitrary: p)
  case Nil
  then show ?case by simp
next
  case (Cons c w)
  have 1: "leads (Chars [ch c]) (p, of_char c # js w @ xs, caps) (Some (of_char c), js w @ xs, caps)"
    by (intro leads_Chars) (simp add: in_class_def ch_def)
  show ?case
  proof (cases "w = []")
    case True
    with leads_Seq[OF 1 leads_Eps] show ?thesis
      by (simp add: lit_def cat_def js_def)
  next
    case False
    from leads_Seq[OF 1 Cons.IH[OF False]] False show ?thesis
      by (simp add: lit_def cat_def js_def)
  qed
qed

lemma leads_exec_at:
  "leads r (p, xs, []) (q, ys, caps) \<Longrightarrow> exec_at r p xs = Some (length xs - length ys, caps)"
  by (cases "rmatch r (p, xs, [])") (auto simp: leads_def exec_at_def remaining_def)


subsection \<open>Property declarations\<close>

lemma cat_Cons: "cat (r # rs) = Seq r (cat rs)"
  by (simp add: cat_def)

lemma cat_Nil: "cat [] = Eps"
  by (simp add: cat_def)

lemma leads_identifier:
  assumes "is_identifier n"
    and "xs = [] \<or> \<not> in_class [rng CHR ''a'' CHR ''z'', rng CHR ''A'' CHR ''Z'', rng CHR ''0'' CHR ''9'', ch CHR ''_''] (hd xs)"
  shows "leads ident_regex (p, n @ xs, caps) (Some (last n), xs, caps)"
proof -
  from assms(1) obtain x w where n: "n = x # w" by (cases n) (auto simp: is_identifier_def)
  have 1: "leads (Chars [rng CHR ''a'' CHR ''z'', rng CHR ''A'' CHR ''Z'', ch CHR ''_''])
      (p, x # w @ xs, caps) (Some x, w @ xs, caps)"
    using assms(1) n by (intro leads_Chars) (simp add: is_identifier_def)
  have 2: "leads (Star ident_char) (Some x, w @ xs, caps)
      (if w = [] then Some x else Some (last w), xs, caps)"
    unfolding ident_char_def
    using assms n by (intro leads_Star_Chars) (auto simp: is_identifier_def)
  from leads_Seq[OF 1 2] show ?thesis
    by (cases "w = []") (simp_all add: ident_regex_def n)
qed

lemma word_class: "in_class [CWord] c = isWordChar c"
  by (simp add: in_class_def)

lemma space_class: "in_class [CSpace] c = isWhiteSpace c"
  by (simp add: in_class_def)

lemma capture_append:
  "capture n (p, w @ xs, caps) (q, xs, caps') = (q, xs, (n, w) # caps')"
  by (simp add: capture_def remaining_def)

lemma exec_at_search:
  "exec_at r p xs = Some (n, caps) \<Longrightarrow> search r p i xs = Some (i, n, caps)"
  by (cases xs) simp_all

lemma property_regex_leads_to:
  assumes t: "t \<noteq> []" "\<forall>c \<in> set t. isWordChar c"
    and n: "is_identifier n"
    and d: "leads (Opt (cat [Star ws, lit ''='', Star ws, lit ''`'', Group 3 (Plus (no CHR ''`'')),
              lit ''`''])) (Some 42, rest, [(2, n), (1, t)]) final"
  shows "leads property_regex (None, t @ js '' **'' @ n @ js ''**'' @ rest, []) final"
proof -
  let ?X4 = "js ''**'' @ rest"
  let ?X3 = "n @ ?X4"
  let ?X2 = "js ''**'' @ ?X3"
  let ?X1 = "[32] @ ?X2"
  let ?L = "t @ ?X1"
  let ?c1 = "[(1, t)]"
  let ?c2 = "(2, n) # ?c1"
  have line: "t @ js '' **'' @ n @ js ''**'' @ rest = ?L"
    by (simp add: js_def)
  \<comment> \<open>the type\<close>
  have w: "leads (Plus word) (None, ?L, []) (Some (last t), ?X1, [])"
    using t by (intro leads_Plus_Chars) (simp_all add: word_class isWordChar_def isDigit_def)
  have "rmatch (Seq (Plus (Chars [CDigit])) (Opt (lit ''D''))) (Some (last t), ?X1, []) = []"
    by (simp add: Plus_def step_char_def in_class_def isDigit_def)
  then have o: "leads (Opt (Seq (Plus (Chars [CDigit])) (Opt (lit ''D''))))
      (Some (last t), ?X1, []) (Some (last t), ?X1, [])"
    by (rule leads_Opt_skipped)
  have g1: "leads (Group 1 (Seq (Plus word) (Opt (Seq (Plus (Chars [CDigit])) (Opt (lit ''D''))))))
      (None, ?L, []) (Some (last t), ?X1, ?c1)"
    using leads_Group[OF leads_Seq[OF w o], of 1] by (simp only: capture_append)
  \<comment> \<open>the space and the name\<close>
  have sp: "leads (Plus ws) (Some (last t), ?X1, ?c1) (Some 32, ?X2, ?c1)"
    using leads_Plus_Chars[of "[32]" "[CSpace]" ?X2 "Some (last t)" ?c1]
    by (simp add: space_class isWhiteSpace_def js_def)
  have st1: "leads (lit ''**'') (Some 32, ?X2, ?c1) (Some 42, ?X3, ?c1)"
    using leads_lit[of "''**''" "Some 32" ?X3 ?c1] by simp
  have id: "leads ident_regex (Some 42, ?X3, ?c1) (Some (last n), ?X4, ?c1)"
    using n by (intro leads_identifier) (simp_all add: js_def in_class_def rng_def ch_def)
  have g2: "leads (Group 2 ident_regex) (Some 42, ?X3, ?c1) (Some (last n), ?X4, ?c2)"
    using leads_Group[OF id, of 2] by (simp only: capture_append)
  have st2: "leads (lit ''**'') (Some (last n), ?X4, ?c2) (Some 42, rest, ?c2)"
    using leads_lit[of "''**''" "Some (last n)" rest ?c2] by simp
  note d' = d[unfolded cat_Cons cat_Nil]
  show ?thesis
    unfolding line property_regex_def cat_Cons cat_Nil
    by (intro leads_Seq[OF leads_Bol_start] leads_Seq[OF g1] leads_Seq[OF sp] leads_Seq[OF st1]
        leads_Seq[OF g2] leads_Seq[OF st2] leads_Seq[OF d'] leads_Eps)
qed

lemma default_leads:
  assumes d: "d \<noteq> []" "96 \<notin> set d"
  shows "leads (Opt (cat [Star ws, lit ''='', Star ws, lit ''`'', Group 3 (Plus (no CHR ''`'')),
           lit ''`''])) (Some 42, js '' = `'' @ d @ js ''`'' @ rest, caps)
           (Some 96, rest, (3, d) # caps)"
proof -
  let ?Y1 = "js ''='' @ [32] @ js ''`'' @ d @ js ''`'' @ rest"
  let ?Y2 = "[32] @ js ''`'' @ d @ js ''`'' @ rest"
  let ?Y3 = "js ''`'' @ d @ js ''`'' @ rest"
  let ?Y4 = "d @ js ''`'' @ rest"
  let ?Y5 = "js ''`'' @ rest"
  have x5: "js '' = `'' @ d @ js ''`'' @ rest = [32] @ ?Y1" by (simp add: js_def)
  have d1: "leads (Star ws) (Some 42, [32] @ ?Y1, caps) (Some 32, ?Y1, caps)"
    using leads_Star_Chars[of "[32]" "[CSpace]" ?Y1 "Some 42" caps]
    by (simp add: space_class isWhiteSpace_def js_def)
  have d2: "leads (lit ''='') (Some 32, ?Y1, caps) (Some 61, ?Y2, caps)"
    using leads_lit[of "''=''" "Some 32" ?Y2 caps] by simp
  have d3: "leads (Star ws) (Some 61, ?Y2, caps) (Some 32, ?Y3, caps)"
    using leads_Star_Chars[of "[32]" "[CSpace]" ?Y3 "Some 61" caps]
    by (simp add: space_class isWhiteSpace_def js_def)
  have d4: "leads (lit ''`'') (Some 32, ?Y3, caps) (Some 96, ?Y4, caps)"
    using leads_lit[of "''`''" "Some 32" ?Y4 caps] by simp
  have d5: "leads (Plus (no CHR ''`'')) (Some 96, ?Y4, caps) (Some (last d), ?Y5, caps)"
    using d by (intro leads_Plus_NotChars) (auto simp: in_class_def ch_def js_def)
  have g3: "leads (Group 3 (Plus (no CHR ''`''))) (Some 96, ?Y4, caps)
      (Some (last d), ?Y5, (3, d) # caps)"
    using leads_Group[OF d5, of 3] by (simp only: capture_append)
  have d6: "leads (lit ''`'') (Some (last d), ?Y5, (3, d) # caps) (Some 96, rest, (3, d) # caps)"
    using leads_lit[of "''`''" "Some (last d)" rest "(3, d) # caps"] by simp
  show ?thesis
    unfolding x5 cat_Cons cat_Nil
    by (intro leads_Opt_taken leads_Seq[OF d1] leads_Seq[OF d2] leads_Seq[OF d3] leads_Seq[OF d4]
        leads_Seq[OF g3] leads_Seq[OF d6] leads_Eps)
qed

lemma class_states_set:
  "set (class_states P p xs caps) =
     insert (hd (class_states P p xs caps)) (set (tl (class_states P p xs caps)))"
  by (cases "class_states P p xs caps") simp_all

lemma no_default_leads:
  assumes "dropWhile isWhiteSpace rest = [] \<or> hd (dropWhile isWhiteSpace rest) \<noteq> 61"
  shows "leads (Opt (cat [Star ws, lit ''='', Star ws, lit ''`'', Group 3 (Plus (no CHR ''`'')),
           lit ''`''])) (p, rest, caps) (p, rest, caps)"
proof (rule leads_Opt_skipped)
  let ?b = "cat [Star ws, lit ''`'', Group 3 (Plus (no CHR ''`'')), lit ''`'']"
  have fails: "rmatch (Seq (lit ''='') ?b) s = []"
    if s: "s \<in> set (class_states isWhiteSpace p rest caps)" for s
  proof -
    from s consider "s = hd (class_states isWhiteSpace p rest caps)"
      | "s \<in> set (tl (class_states isWhiteSpace p rest caps))"
      using class_states_set[of isWhiteSpace p rest caps] by auto
    then show ?thesis
    proof cases
      case 1
      then obtain q where "s = (q, dropWhile isWhiteSpace rest, caps)"
        by (simp add: class_states_hd)
      with assms show ?thesis
        by (cases "dropWhile isWhiteSpace rest")
          (auto simp: lit_def cat_def step_char_def in_class_def ch_def)
    next
      case 2
      from class_states_tl[OF this] obtain q c ys where
        "s = (q, c # ys, caps)" "isWhiteSpace c" by blast
      then show ?thesis
        by (auto simp: lit_def cat_def step_char_def in_class_def ch_def isWhiteSpace_def)
    qed
  qed
  have cl: "in_class [CSpace] = isWhiteSpace"
    by (rule ext) (rule space_class)
  have "rmatch (cat [Star ws, lit ''='', Star ws, lit ''`'', Group 3 (Plus (no CHR ''`'')),
      lit ''`'']) (p, rest, caps) =
      concat (map (rmatch (Seq (lit ''='') ?b)) (class_states isWhiteSpace p rest caps))"
    unfolding cat_Cons cat_Nil rmatch.simps(7)[of "Star ws"] rmatch_Star_Chars cl ..
  also have "\<dots> = []"
    using fails by simp
  finally show "rmatch (cat [Star ws, lit ''='', Star ws, lit ''`'', Group 3 (Plus (no CHR ''`'')),
      lit ''`'']) (p, rest, caps) = []" .
qed

lemma propertyMatch_shape:
  assumes "t \<noteq> []" "\<forall>c \<in> set t. isWordChar c" "is_identifier n" "d \<noteq> []" "96 \<notin> set d"
  shows "propertyMatch (t @ js '' **'' @ n @ js ''** = `'' @ d @ js ''`'' @ rest) =
           Some \<lparr>ptype = t, pname = n, defaultValue = Some d\<rparr>"
proof -
  let ?L = "t @ js '' **'' @ n @ js ''**'' @ js '' = `'' @ d @ js ''`'' @ rest"
  have line: "t @ js '' **'' @ n @ js ''** = `'' @ d @ js ''`'' @ rest = ?L"
    by (simp add: js_def)
  from leads_exec_at[OF property_regex_leads_to[OF assms(1,2,3) default_leads[OF assms(4,5)]]]
  have "exec_at property_regex None ?L = Some (length ?L - length rest, [(3, d), (2, n), (1, t)])" .
  from exec_at_search[OF this, of 0] show ?thesis
    unfolding line by (simp add: propertyMatch_def group_text_def group_def)
qed

lemma propertyMatch_shape_no_default:
  assumes "t \<noteq> []" "\<forall>c \<in> set t. isWordChar c" "is_identifier n"
    "dropWhile isWhiteSpace rest = [] \<or> hd (dropWhile isWhiteSpace rest) \<noteq> 61"
  shows "propertyMatch (t @ js '' **'' @ n @ js ''**'' @ rest) =
           Some \<lparr>ptype = t, pname = n, defaultValue = None\<rparr>"
proof -
  let ?L = "t @ js '' **'' @ n @ js ''**'' @ rest"
  from leads_exec_at[OF property_regex_leads_to[OF assms(1,2,3) no_default_leads[OF assms(4)]]]
  have "exec_at property_regex None ?L = Some (length ?L - length rest, [(2, n), (1, t)])" .
  from exec_at_search[OF this, of 0] show ?thesis
    by (simp add: propertyMatch_def group_text_def group_def)
qed

lemma property_row_shape:
  "property_row \<lparr>ptype = t, pname = n, defaultValue = Some d\<rparr> =
     js ''| '' @ t @ js '' | **'' @ n @ js ''** | '' @ d @ js '' |''"
  "property_row \<lparr>ptype = t, pname = n, defaultValue = None\<rparr> =
     js ''| '' @ t @ js '' | **'' @ n @ js ''** |  |''"
  by (simp_all add: property_row_def js_def)


subsection \<open>Method declarations\<close>

lemma method_regex_leads:
  assumes rt: "rt \<noteq> []" "96 \<notin> set rt"
    and n: "is_identifier n"
    and ps: "41 \<notin> set ps"
  shows "leads method_regex
           (None, js ''`'' @ rt @ js ''` **'' @ n @ js ''**('' @ ps @ js '')'' @ rest, [])
           (Some 41, rest, [(3, ps), (2, n), (1, rt)])"
proof -
  let ?X6 = "js '')'' @ rest"
  let ?X5 = "ps @ ?X6"
  let ?X4b = "js ''('' @ ?X5"
  let ?X4 = "js ''**'' @ ?X4b"
  let ?X3 = "n @ ?X4"
  let ?X2 = "js ''**'' @ ?X3"
  let ?X1 = "[32] @ ?X2"
  let ?X0 = "js ''`'' @ ?X1"
  let ?R = "rt @ ?X0"
  let ?L = "js ''`'' @ ?R"
  let ?c1 = "[(1, rt)]"
  let ?c2 = "(2, n) # ?c1"
  let ?c3 = "(3, ps) # ?c2"
  have line: "js ''`'' @ rt @ js ''` **'' @ n @ js ''**('' @ ps @ js '')'' @ rest = ?L"
    by (simp add: js_def)
  \<comment> \<open>the return type\<close>
  have b0: "leads (lit ''`'') (None, ?L, []) (Some 96, ?R, [])"
    using leads_lit[of "''`''" None ?R "[]"] by simp
  have r1: "leads (Plus (no CHR ''`'')) (Some 96, ?R, []) (Some (last rt), ?X0, [])"
    using rt by (intro leads_Plus_NotChars) (auto simp: in_class_def ch_def js_def)
  have g1: "leads (Group 1 (Plus (no CHR ''`''))) (Some 96, ?R, []) (Some (last rt), ?X0, ?c1)"
    using leads_Group[OF r1, of 1] by (simp only: capture_append)
  have b1: "leads (lit ''`'') (Some (last rt), ?X0, ?c1) (Some 96, ?X1, ?c1)"
    using leads_lit[of "''`''" "Some (last rt)" ?X1 ?c1] by simp
  \<comment> \<open>the space and the name\<close>
  have sp: "leads (Plus ws) (Some 96, ?X1, ?c1) (Some 32, ?X2, ?c1)"
    using leads_Plus_Chars[of "[32]" "[CSpace]" ?X2 "Some 96" ?c1]
    by (simp add: space_class isWhiteSpace_def js_def)
  have st1: "leads (lit ''**'') (Some 32, ?X2, ?c1) (Some 42, ?X3, ?c1)"
    using leads_lit[of "''**''" "Some 32" ?X3 ?c1] by simp
  have id: "leads ident_regex (Some 42, ?X3, ?c1) (Some (last n), ?X4, ?c1)"
    using n by (intro leads_identifier) (simp_all add: js_def in_class_def rng_def ch_def)
  have g2: "leads (Group 2 ident_regex) (Some 42, ?X3, ?c1) (Some (last n), ?X4, ?c2)"
    using leads_Group[OF id, of 2] by (simp only: capture_append)
  have st2: "leads (lit ''**'') (Some (last n), ?X4, ?c2) (Some 42, ?X4b, ?c2)"
    using leads_lit[of "''**''" "Some (last n)" ?X4b ?c2] by simp
  \<comment> \<open>the parameters\<close>
  have sw: "leads (Star ws) (Some 42, ?X4b, ?c2) (Some 42, ?X4b, ?c2)"
    using leads_Star_Chars[of "[]" "[CSpace]" ?X4b "Some 42" ?c2]
    by (simp add: space_class isWhiteSpace_def js_def)
  have lp: "leads (lit ''('') (Some 42, ?X4b, ?c2) (Some 40, ?X5, ?c2)"
    using leads_lit[of "''(''" "Some 42" ?X5 ?c2] by simp
  have pr: "leads (Star (no CHR '')'')) (Some 40, ?X5, ?c2)
      (if ps = [] then Some 40 else Some (last ps), ?X6, ?c2)"
    using ps by (intro leads_Star_NotChars) (auto simp: in_class_def ch_def js_def)
  have g3: "leads (Group 3 (Star (no CHR '')''))) (Some 40, ?X5, ?c2)
      (if ps = [] then Some 40 else Some (last ps), ?X6, ?c3)"
    using leads_Group[OF pr, of 3] by (simp only: capture_append)
  have rp: "leads (lit '')'') (if ps = [] then Some 40 else Some (last ps), ?X6, ?c3)
      (Some 41, rest, ?c3)"
    using leads_lit[of "'')''" "if ps = [] then Some 40 else Some (last ps)" rest ?c3] by simp
  show ?thesis
    unfolding line method_regex_def cat_Cons cat_Nil
    by (intro leads_Seq[OF leads_Bol_start] leads_Seq[OF b0] leads_Seq[OF g1] leads_Seq[OF b1]
        leads_Seq[OF sp] leads_Seq[OF st1] leads_Seq[OF g2] leads_Seq[OF st2] leads_Seq[OF sw]
        leads_Seq[OF lp] leads_Seq[OF g3] leads_Seq[OF rp] leads_Eps)
qed

lemma methodMatch_shape:
  assumes "rt \<noteq> []" "96 \<notin> set rt" "is_identifier n" "41 \<notin> set ps"
  shows "methodMatch (js ''`'' @ rt @ js ''` **'' @ n @ js ''**('' @ ps @ js '')'' @ rest) =
           Some \<lparr>returnType = cleanReturnType rt,
                 signature = js ''**'' @ n @ js ''**('' @ ps @ js '')''\<rparr>"
proof -
  let ?L = "js ''`'' @ rt @ js ''` **'' @ n @ js ''**('' @ ps @ js '')'' @ rest"
  from leads_exec_at[OF method_regex_leads[OF assms, of rest]]
  have "exec_at method_regex None ?L = Some (length ?L - length rest, [(3, ps), (2, n), (1, rt)])" .
  from exec_at_search[OF this, of 0] show ?thesis
    by (simp add: methodMatch_def group_text_def group_def)
qed


subsection \<open>The annotation of a return type\<close>

lemma class_states_drop:
  "s \<in> set (class_states P p xs caps) \<Longrightarrow>
   \<exists>q k. k \<le> length (takeWhile P xs) \<and> s = (q, drop k xs, caps)"
proof (induction xs arbitrary: p)
  case Nil
  then show ?case by simp
next
  case (Cons x xs)
  show ?case
  proof (cases "s = (p, x # xs, caps)")
    case True
    then have "0 \<le> length (takeWhile P (x # xs)) \<and> s = (p, drop 0 (x # xs), caps)" by simp
    then show ?thesis by blast
  next
    case False
    with Cons.prems have px: "P x" and "s \<in> set (class_states P (Some x) xs caps)"
      by (auto split: if_splits)
    from Cons.IH[OF this(2)] obtain q k where
      "k \<le> length (takeWhile P xs)" "s = (q, drop k xs, caps)" by blast
    with px have "Suc k \<le> length (takeWhile P (x # xs)) \<and> s = (q, drop (Suc k) (x # xs), caps)"
      by simp
    then show ?thesis by blast
  qed
qed

lemma lit_paren_fails:
  "xs = [] \<or> hd xs \<noteq> 40 \<Longrightarrow> rmatch (Seq (lit ''('') r) (q, xs, caps) = []"
  by (cases xs) (simp_all add: lit_def cat_def step_char_def in_class_def ch_def)

lemma annotation_fails:
  assumes "40 \<notin> set b" and "ys = [] \<or> (\<exists>c \<in> set b. \<not> isWhiteSpace c)"
  shows "rmatch annotation_regex (p, b @ ys, caps) = []"
proof -
  let ?r = "cat [LazyStar Dot, lit '')'', Star ws]"
  have fails: "rmatch (Seq (lit ''('') ?r) s = []"
    if s: "s \<in> set (class_states isWhiteSpace p (b @ ys) caps)" for s
  proof -
    from class_states_drop[OF s] obtain q k where
      k: "k \<le> length (takeWhile isWhiteSpace (b @ ys))" and s': "s = (q, drop k (b @ ys), caps)"
      by blast
    have "drop k (b @ ys) = [] \<or> hd (drop k (b @ ys)) \<noteq> 40"
    proof (cases "ys = []")
      case True
      show ?thesis
      proof (cases "drop k b = []")
        case True
        with \<open>ys = []\<close> show ?thesis by simp
      next
        case False
        then have "hd (drop k b) \<in> set b"
          using hd_in_set[OF False] set_drop_subset[of k b] by blast
        with assms(1) \<open>ys = []\<close> show ?thesis by auto
      qed
    next
      case False
      with assms(2) obtain c where c: "c \<in> set b" "\<not> isWhiteSpace c" by blast
      then have tw: "takeWhile isWhiteSpace (b @ ys) = takeWhile isWhiteSpace b"
        by (simp add: takeWhile_append1)
      have "length (takeWhile isWhiteSpace b) < length b"
      proof (rule ccontr)
        assume "\<not> length (takeWhile isWhiteSpace b) < length b"
        then have "length (takeWhile isWhiteSpace b) = length b"
          using length_takeWhile_le[of isWhiteSpace b] by simp
        then have "takeWhile isWhiteSpace b = b"
          by (metis takeWhile_dropWhile_id append_eq_conv_conj length_0_conv
              length_append add_diff_cancel_left' append_Nil2 self_append_conv)
        then have "\<forall>x \<in> set b. isWhiteSpace x"
          by (metis set_takeWhileD)
        with c show False by blast
      qed
      with k tw have kb: "k < length b" by simp
      then have ne: "drop k b \<noteq> []" by simp
      then have "hd (drop k b) \<in> set b"
        using hd_in_set[OF ne] set_drop_subset[of k b] by blast
      with assms(1) ne kb show ?thesis by auto
    qed
    then show ?thesis
      unfolding s' by (rule lit_paren_fails)
  qed
  have cl: "in_class [CSpace] = isWhiteSpace"
    by (rule ext) (rule space_class)
  have "rmatch annotation_regex (p, b @ ys, caps) =
      concat (map (rmatch (Seq (lit ''('') ?r)) (class_states isWhiteSpace p (b @ ys) caps))"
    unfolding annotation_regex_def cat_Cons cat_Nil rmatch.simps(7)[of "Star ws"] rmatch_Star_Chars cl ..
  also have "\<dots> = []"
    using fails by simp
  finally show ?thesis .
qed

lemma search_skip:
  assumes "\<And>pre b' q. b = pre @ b' \<Longrightarrow> b' \<noteq> [] \<Longrightarrow> exec_at r q (b' @ X) = None"
  shows "search r p i (b @ X) = search r (if b = [] then p else Some (last b)) (i + length b) X"
  using assms
proof (induction b arbitrary: p i)
  case Nil
  show ?case by simp
next
  case (Cons x b)
  have here: "exec_at r p (x # b @ X) = None"
    using Cons.prems[of "[]" "x # b" p] by simp
  have "search r (Some x) (Suc i) (b @ X) =
      search r (if b = [] then Some x else Some (last b)) (Suc i + length b) X"
  proof (rule Cons.IH)
    fix pre b' q
    assume "b = pre @ b'" "b' \<noteq> []"
    then show "exec_at r q (b' @ X) = None"
      using Cons.prems[of "x # pre" b' q] by simp
  qed
  with here show ?case by simp
qed

lemma search_None:
  assumes "\<And>pre b' q. xs = pre @ b' \<Longrightarrow> exec_at r q b' = None"
  shows "search r p i xs = None"
  using assms
proof (induction xs arbitrary: p i)
  case Nil
  then show ?case using Nil[of "[]" "[]" p] by simp
next
  case (Cons x xs)
  have here: "exec_at r p (x # xs) = None"
    using Cons.prems[of "[]" "x # xs" p] by simp
  have "search r (Some x) (Suc i) xs = None"
  proof (rule Cons.IH)
    fix pre b' q
    assume "xs = pre @ b'"
    then show "exec_at r q b' = None"
      using Cons.prems[of "x # pre" b' q] by simp
  qed
  with here show ?case by simp
qed

lemma exec_at_None: "rmatch r (q, xs, []) = [] \<Longrightarrow> exec_at r q xs = None"
  by (simp add: exec_at_def)

lemma rmatch_LazyStar_head: "\<exists>ss. rmatch (LazyStar r) s = s # ss"
  by (cases "length (remaining s)") simp_all

lemma rmatch_LazyStar_Dot_Cons:
  "\<not> isLineTerminator x \<Longrightarrow>
   rmatch (LazyStar Dot) (p, x # xs, caps) =
     (p, x # xs, caps) # rmatch (LazyStar Dot) (Some x, xs, caps)"
  by (simp add: remaining_def step_char_def)

lemma leads_LazyStar_Dot:
  assumes "\<forall>c \<in> set a. \<not> isLineTerminator c"
    and "\<And>q k. k < length a \<Longrightarrow> rmatch b (q, drop k a @ X, caps) = []"
    and "leads b (if a = [] then p else Some (last a), X, caps) s'"
  shows "leads (Seq (LazyStar Dot) b) (p, a @ X, caps) s'"
  using assms
proof (induction a arbitrary: p)
  case Nil
  obtain ss where "rmatch (LazyStar Dot) (p, X, caps) = (p, X, caps) # ss"
    using rmatch_LazyStar_head by blast
  with Nil.prems(3) show ?case
    by (cases "rmatch b (p, X, caps)") (auto simp: leads_def)
next
  case (Cons x a)
  have nl: "\<not> isLineTerminator x" using Cons.prems(1) by simp
  have here: "rmatch b (p, x # a @ X, caps) = []"
    using Cons.prems(2)[of 0 p] by simp
  have "leads (Seq (LazyStar Dot) b) (Some x, a @ X, caps) s'"
  proof (rule Cons.IH)
    show "\<forall>c \<in> set a. \<not> isLineTerminator c" using Cons.prems(1) by simp
    show "rmatch b (q, drop k a @ X, caps) = []" if "k < length a" for q k
      using Cons.prems(2)[of "Suc k" q] that by simp
    show "leads b (if a = [] then Some x else Some (last a), X, caps) s'"
      using Cons.prems(3) by (cases "a = []") simp_all
  qed
  then show ?case
    using here by (simp add: leads_def rmatch_LazyStar_Dot_Cons[OF nl] del: rmatch.simps(10))
qed

lemma annotation_leads:
  assumes w: "\<forall>c \<in> set w. isWhiteSpace c"
    and ann: "41 \<notin> set ann" "\<forall>c \<in> set ann. \<not> isLineTerminator c"
    and w2: "\<forall>c \<in> set w2. isWhiteSpace c"
  shows "\<exists>q. leads annotation_regex (p, w @ js ''('' @ ann @ js '')'' @ w2, caps) (q, [], caps)"
proof -
  let ?X3 = "w2 @ []"
  let ?X2 = "js '')'' @ ?X3"
  let ?X1 = "ann @ ?X2"
  let ?X0 = "js ''('' @ ?X1"
  let ?p1 = "if w = [] then p else Some (last w)"
  let ?p3 = "if w2 = [] then Some 41 else Some (last w2)"
  let ?tail = "Seq (lit '')'') (Seq (Star ws) Eps)"
  have line: "w @ js ''('' @ ann @ js '')'' @ w2 = w @ ?X0" by simp
  have s1: "leads (Star ws) (p, w @ ?X0, caps) (?p1, ?X0, caps)"
    using w by (intro leads_Star_Chars) (simp_all add: space_class isWhiteSpace_def js_def)
  have lp: "leads (lit ''('') (?p1, ?X0, caps) (Some 40, ?X1, caps)"
    using leads_lit[of "''(''" ?p1 ?X1 caps] by simp
  have rp: "leads (lit '')'') (if ann = [] then Some 40 else Some (last ann), ?X2, caps)
      (Some 41, ?X3, caps)"
    using leads_lit[of "'')''" "if ann = [] then Some 40 else Some (last ann)" ?X3 caps] by simp
  have s2: "leads (Star ws) (Some 41, ?X3, caps) (?p3, [], caps)"
    using w2 by (intro leads_Star_Chars) (simp_all add: space_class)
  have tail: "leads ?tail (if ann = [] then Some 40 else Some (last ann), ?X2, caps) (?p3, [], caps)"
    by (intro leads_Seq[OF rp] leads_Seq[OF s2] leads_Eps)
  have early: "rmatch ?tail (q, drop k ann @ ?X2, caps) = []" if "k < length ann" for q k
  proof -
    from that have ne: "drop k ann \<noteq> []" by simp
    then have "hd (drop k ann) \<in> set ann"
      using hd_in_set[OF ne] set_drop_subset[of k ann] by blast
    with ann(1) have "hd (drop k ann) \<noteq> 41" by auto
    with ne show ?thesis
      by (cases "drop k ann") (simp_all add: lit_def cat_def step_char_def in_class_def ch_def)
  qed
  have lz: "leads (Seq (LazyStar Dot) ?tail) (Some 40, ?X1, caps) (?p3, [], caps)"
    using ann(2) early tail by (rule leads_LazyStar_Dot)
  have "leads annotation_regex (p, w @ ?X0, caps) (?p3, [], caps)"
    unfolding annotation_regex_def cat_Cons cat_Nil
    by (intro leads_Seq[OF s1] leads_Seq[OF lp] lz)
  then show ?thesis unfolding line by blast
qed


lemma cleanReturnType_plain:
  assumes "40 \<notin> set rt"
  shows "cleanReturnType rt = (if trim rt = [] then js ''void'' else trim rt)"
proof -
  have "search annotation_regex None 0 rt = None"
  proof (rule search_None)
    fix pre b' q
    assume "rt = pre @ b'"
    with assms have "40 \<notin> set b'" by auto
    from annotation_fails[OF this, of "[]" q "[]"]
    show "exec_at annotation_regex q b' = None" by (simp add: exec_at_None)
  qed
  then show ?thesis by (simp add: cleanReturnType_def replace_first_def)
qed

lemma trim_append_space:
  assumes "\<forall>c \<in> set w. isWhiteSpace c"
  shows "trim (s @ w) = trim s"
proof (cases "\<forall>c \<in> set s. isWhiteSpace c")
  case True
  with assms have "trim s = []" "trim (s @ w) = []" by (auto simp: trim_Nil_iff)
  then show ?thesis by simp
next
  case False
  then have "dropWhile isWhiteSpace (s @ w) = dropWhile isWhiteSpace s @ w"
    by (auto simp: dropWhile_append1)
  moreover have "dropWhile isWhiteSpace (rev w @ ys) = dropWhile isWhiteSpace ys" for ys
    using assms by (intro dropWhile_append2) simp
  ultimately show ?thesis by (simp add: trim_def trimStart_def trimEnd_def)
qed

lemma trimEnd_split:
  obtains w where "s = trimEnd s @ w" "\<forall>c \<in> set w. isWhiteSpace c"
    "trimEnd s = [] \<or> \<not> isWhiteSpace (last (trimEnd s))"
proof
  let ?w = "rev (takeWhile isWhiteSpace (rev s))"
  have "rev s = takeWhile isWhiteSpace (rev s) @ dropWhile isWhiteSpace (rev s)" by simp
  then have "rev (rev s) = rev (dropWhile isWhiteSpace (rev s)) @ ?w"
    by (metis rev_append)
  then show "s = trimEnd s @ ?w" by (simp add: trimEnd_def)
  show "\<forall>c \<in> set ?w. isWhiteSpace c" by (auto dest: set_takeWhileD)
  show "trimEnd s = [] \<or> \<not> isWhiteSpace (last (trimEnd s))"
    using hd_dropWhile[of isWhiteSpace "rev s"] by (auto simp: trimEnd_def last_rev)
qed

lemma replace_first_annotation:
  assumes b: "40 \<notin> set b" "b = [] \<or> \<not> isWhiteSpace (last b)"
    and w: "\<forall>c \<in> set w. isWhiteSpace c"
    and ann: "41 \<notin> set ann" "\<forall>c \<in> set ann. \<not> isLineTerminator c"
    and w2: "\<forall>c \<in> set w2. isWhiteSpace c"
  shows "replace_first annotation_regex [] (b @ w @ js ''('' @ ann @ js '')'' @ w2) = b"
proof -
  let ?X = "w @ js ''('' @ ann @ js '')'' @ w2"
  let ?p = "if b = [] then None else Some (last b)"
  have skip: "search annotation_regex None 0 (b @ ?X) =
      search annotation_regex ?p (0 + length b) ?X"
  proof (rule search_skip)
    fix pre b' q
    assume split: "b = pre @ b'" and ne: "b' \<noteq> []"
    with b(1) have 1: "40 \<notin> set b'" by auto
    from split ne b(2) have "\<not> isWhiteSpace (last b')" by auto
    with ne have 2: "\<exists>c \<in> set b'. \<not> isWhiteSpace c"
      using last_in_set[OF ne] by blast
    from annotation_fails[OF 1, of ?X q "[]"] 2
    show "exec_at annotation_regex q (b' @ ?X) = None" by (simp add: exec_at_None)
  qed
  obtain q where "leads annotation_regex (?p, ?X, []) (q, [], [])"
    using annotation_leads[OF w ann w2, of ?p "[]"] by blast
  from leads_exec_at[OF this] have "exec_at annotation_regex ?p ?X = Some (length ?X, [])"
    by simp
  from exec_at_search[OF this, of "0 + length b"] skip
  have "search annotation_regex None 0 (b @ ?X) = Some (length b, length ?X, [])" by simp
  then show ?thesis by (simp add: replace_first_def)
qed

lemma cleanReturnType_annotated:
  assumes "40 \<notin> set base" "41 \<notin> set ann" "\<forall>c \<in> set ann. \<not> isLineTerminator c"
    "\<forall>c \<in> set w2. isWhiteSpace c"
  shows "cleanReturnType (base @ js ''('' @ ann @ js '')'' @ w2) =
           (if trim base = [] then js ''void'' else trim base)"
proof -
  obtain w where w: "base = trimEnd base @ w" "\<forall>c \<in> set w. isWhiteSpace c"
    "trimEnd base = [] \<or> \<not> isWhiteSpace (last (trimEnd base))"
    by (rule trimEnd_split)
  have "40 \<notin> set (trimEnd base)"
    using assms(1) w(1) by (metis Un_iff set_append)
  from replace_first_annotation[OF this w(3) w(2) assms(2,3,4)]
  have "replace_first annotation_regex [] ((trimEnd base @ w) @ js ''('' @ ann @ js '')'' @ w2) =
      trimEnd base" by simp
  then have r: "replace_first annotation_regex [] (base @ js ''('' @ ann @ js '')'' @ w2) =
      trimEnd base" using w(1) by simp
  have "trim (trimEnd base) = trim (trimEnd base @ w)"
    using trim_append_space[OF w(2)] by simp
  then have "trim (trimEnd base) = trim base" using w(1) by simp
  with r show ?thesis by (simp add: cleanReturnType_def)
qed

lemma method_row_shape:
  "method_row m = js ''| '' @ returnType m @ js '' | '' @ signature m @ js '' |''"
  by (simp add: method_row_def)


section \<open>Spaces\<close>

subsection \<open>Texts without two adjacent spaces\<close>










subsection \<open>A replacement that keeps spaces apart\<close>







subsection \<open>The rules after the collapse of spaces\<close>

























section \<open>The loop of the language filter\<close>

subsection \<open>One iteration\<close>






subsection \<open>The lines that are kept\<close>



subsection \<open>The state of the loop inside a tab block\<close>





section \<open>A second run of the table reconstruction\<close>

subsection \<open>The loop as a function of the remaining lines\<close>

lemma inserted_after_drop:
  "k < length lines \<Longrightarrow> inserted_after lines k = inserted_after (drop k lines) 0"
  by (simp add: inserted_after_def properties_trigger_def methods_trigger_def
      extractPropertiesTable_closed extractMethodsTable_closed description_section_def
      less_diff_conv add.commute)

lemma reconstruct_loop_from:
  "concat (map (\<lambda>k. lines ! k # inserted_after lines k) [i..<length lines]) =
   with_tables (drop i lines)"
proof (induction "length lines - i" arbitrary: i)
  case 0
  then show ?case by simp
next
  case (Suc n)
  then have i: "i < length lines" and n: "n = length lines - Suc i" by simp_all
  from i have d: "drop i lines = lines ! i # drop (Suc i) lines"
    by (simp add: Cons_nth_drop_Suc)
  from i have upt: "[i..<length lines] = i # [Suc i..<length lines]"
    by (simp add: upt_conv_Cons)
  have "inserted_after lines i = inserted_after (lines ! i # drop (Suc i) lines) 0"
    using inserted_after_drop[OF i] d by simp
  with Suc.hyps(1)[OF n] show ?case
    by (simp add: upt d)
qed

lemma reconstruct_loop_with_tables: "reconstruct_loop lines 0 [] = with_tables lines"
  using reconstruct_loop_from[of lines 0] by (simp add: reconstruct_loop_closed)


subsection \<open>Lines that the reconstruction passes over\<close>

lemma inert_not_heading:
  assumes "inert l"
  shows "trim l \<noteq> js ''## Properties''" "trim l \<noteq> js ''## Methods''"
    "trim l \<noteq> js ''## Property Descriptions''" "trim l \<noteq> js ''## Method Descriptions''"
    "\<not> section_end h l"
  using assms by (auto simp: inert_def section_end_def startsWith_def js_def)

lemma search_not_at_start:
  "search (Seq (Bol False) r) (Some c) i xs = None"
  by (induction xs arbitrary: c i) (simp_all add: exec_at_def at_line_start_def)

lemma inert_no_property:
  assumes "inert l"
  shows "propertyMatch (trim l) = None"
proof -
  have "search property_regex None 0 (trim l) = None"
  proof (cases "trim l")
    case Nil
    have "exec_at property_regex None [] = None"
      by (simp add: exec_at_def property_regex_def cat_def Plus_def step_char_def)
    with Nil show ?thesis by simp
  next
    case (Cons c s)
    with assms have c: "c = 124" by (simp add: inert_def)
    have "exec_at property_regex None (124 # s) = None"
      by (simp add: exec_at_def property_regex_def cat_def Plus_def step_char_def in_class_def
          isWordChar_def isDigit_def)
    moreover have "search property_regex (Some 124) (Suc 0) s = None"
      unfolding property_regex_def cat_Cons by (rule search_not_at_start)
    ultimately show ?thesis using Cons c by simp
  qed
  then show ?thesis by (simp add: propertyMatch_def)
qed

lemma inert_no_method:
  assumes "inert l"
  shows "methodMatch (trim l) = None"
proof -
  have "search method_regex None 0 (trim l) = None"
  proof (cases "trim l")
    case Nil
    have "exec_at method_regex None [] = None"
      by (simp add: exec_at_def method_regex_def cat_def lit_def step_char_def)
    with Nil show ?thesis by simp
  next
    case (Cons c s)
    with assms have c: "c = 124" by (simp add: inert_def)
    have "exec_at method_regex None (124 # s) = None"
      by (simp add: exec_at_def method_regex_def cat_def lit_def step_char_def in_class_def ch_def)
    moreover have "search method_regex (Some 124) (Suc 0) s = None"
      unfolding method_regex_def cat_Cons by (rule search_not_at_start)
    ultimately show ?thesis using Cons c by simp
  qed
  then show ?thesis by (simp add: methodMatch_def)
qed

lemma inert_inserts_nothing: "inert l \<Longrightarrow> inserted_after (l # ls) 0 = []"
  using inert_not_heading(1,2)[of l]
  by (simp add: inserted_after_def properties_trigger_def methods_trigger_def)

lemma with_tables_inert:
  "\<forall>f \<in> set fs. inert f \<Longrightarrow> with_tables (fs @ ys) = fs @ with_tables ys"
  by (induction fs) (simp_all add: inert_inserts_nothing)

subsection \<open>The lines of a table\<close>

lemma trim_id:
  assumes "s \<noteq> []" "\<not> isWhiteSpace (hd s)" "\<not> isWhiteSpace (last s)"
  shows "trim s = s"
proof -
  from assms(1,2) have 1: "dropWhile isWhiteSpace s = s" by (cases s) simp_all
  from assms(1,3) have "dropWhile isWhiteSpace (rev s) = rev s"
    by (cases "rev s") (simp_all add: hd_rev[symmetric])
  with 1 show ?thesis by (simp add: trim_def trimStart_def trimEnd_def)
qed

lemma inert_bars:
  assumes "s \<noteq> []" "hd s = 124" "last s = 124"
  shows "inert s"
proof -
  have "trim s = s"
    using assms by (intro trim_id) (simp_all add: isWhiteSpace_def)
  with assms(1,2) show ?thesis
    by (cases s) (simp_all add: inert_def)
qed

lemma row_inert: "inert (property_row p)" "inert (method_row m)"
  by (rule inert_bars; simp add: property_row_def method_row_def Let_def js_def)+

lemma header_inert:
  "\<forall>l \<in> set (split_lines properties_header). inert l"
  "\<forall>l \<in> set (split_lines methods_header). inert l"
proof -
  have "split_lines properties_header =
      [js ''| Type | Property | Default |'', js ''|------|----------|---------|'']"
    by (simp add: properties_header_def js_def split_lines_def)
  moreover have "inert (js ''| Type | Property | Default |'')"
    "inert (js ''|------|----------|---------|'')"
    by (rule inert_bars; simp add: js_def)+
  ultimately show "\<forall>l \<in> set (split_lines properties_header). inert l" by simp
  have "split_lines methods_header =
      [js ''| Return Type | Method |'', js ''|-------------|--------|'']"
    by (simp add: methods_header_def js_def split_lines_def)
  moreover have "inert (js ''| Return Type | Method |'')" "inert (js ''|-------------|--------|'')"
    by (rule inert_bars; simp add: js_def)+
  ultimately show "\<forall>l \<in> set (split_lines methods_header). inert l" by simp
qed


lemma inert_Nil: "inert []"
  by (simp add: inert_def trim_def trimStart_def trimEnd_def)

lemma table_split:
  assumes rows: "\<forall>r \<in> set rows. 10 \<notin> set r \<and> inert r"
    and header: "\<forall>l \<in> set (split_lines header). inert l"
    and x: "x \<in> set (split_lines (join_lines (header # rows)))"
  shows "inert x"
proof -
  have "split_lines (join_lines (header # rows)) = concat (map split_lines (header # rows))"
    by (rule split_join_lines) simp
  with x consider "x \<in> set (split_lines header)"
    | r where "r \<in> set rows" "x \<in> set (split_lines r)"
    by auto
  then show ?thesis
  proof cases
    case 1
    with header show ?thesis by simp
  next
    case 2
    with rows have "split_lines r = [r]" "inert r"
      by (simp_all add: split_lines_def split_on_no_delim)
    with 2 show ?thesis by simp
  qed
qed

lemma inserted_lines_inert:
  assumes lines: "\<forall>l \<in> set lines. 10 \<notin> set l"
    and x: "x \<in> set (concat (map split_lines (inserted_after lines i)))"
  shows "inert x"
proof -
  from x obtain y where y: "y \<in> set (inserted_after lines i)" and xy: "x \<in> set (split_lines y)"
    by auto
  from inserted_after_cases[OF y]
  consider "y = []" | "extractPropertiesTable lines i = Some y"
    | "extractMethodsTable lines i = Some y" by blast
  then show ?thesis
  proof cases
    case 1
    with xy show ?thesis by (simp add: split_lines_def inert_Nil)
  next
    case 2
    then obtain sec where sec: "description_section (js ''## Property Descriptions'') lines i = Some sec"
      and t: "y = join_lines (properties_header #
        map property_row (List.map_filter (\<lambda>l. propertyMatch (trim l)) sec))"
      by (auto simp: extractPropertiesTable_closed Let_def split: option.splits if_splits)
    have "\<forall>r \<in> set (map property_row (List.map_filter (\<lambda>l. propertyMatch (trim l)) sec)).
        10 \<notin> set r \<and> inert r"
    proof
      fix r assume "r \<in> set (map property_row (List.map_filter (\<lambda>l. propertyMatch (trim l)) sec))"
      then obtain p where p: "p \<in> set (List.map_filter (\<lambda>l. propertyMatch (trim l)) sec)"
        and r: "r = property_row p" by auto
      from map_filter_mem[OF p] obtain l where l: "l \<in> set sec" "propertyMatch (trim l) = Some p"
        by blast
      from l(1) description_section_subset[OF sec] lines have "10 \<notin> set l" by auto
      with set_trim[of l] have "10 \<notin> set (trim l)" by auto
      with property_row_chars[OF l(2)] have "10 \<notin> set (property_row p)"
        by (auto simp: js_def)
      with r show "10 \<notin> set r \<and> inert r" by (simp add: row_inert)
    qed
    from table_split[OF this header_inert(1)] xy t show ?thesis by simp
  next
    case 3
    then obtain sec where sec: "description_section (js ''## Method Descriptions'') lines i = Some sec"
      and t: "y = join_lines (methods_header #
        map method_row (List.map_filter (\<lambda>l. methodMatch (trim l)) sec))"
      by (auto simp: extractMethodsTable_closed Let_def split: option.splits if_splits)
    have "\<forall>r \<in> set (map method_row (List.map_filter (\<lambda>l. methodMatch (trim l)) sec)).
        10 \<notin> set r \<and> inert r"
    proof
      fix r assume "r \<in> set (map method_row (List.map_filter (\<lambda>l. methodMatch (trim l)) sec))"
      then obtain m where m: "m \<in> set (List.map_filter (\<lambda>l. methodMatch (trim l)) sec)"
        and r: "r = method_row m" by auto
      from map_filter_mem[OF m] obtain l where l: "l \<in> set sec" "methodMatch (trim l) = Some m"
        by blast
      from l(1) description_section_subset[OF sec] lines have "10 \<notin> set l" by auto
      with set_trim[of l] have "10 \<notin> set (trim l)" by auto
      with method_row_chars[OF l(2)] have "10 \<notin> set (method_row m)"
        by (auto simp: js_def)
      with r show "10 \<notin> set r \<and> inert r" by (simp add: row_inert)
    qed
    from table_split[OF this header_inert(2)] xy t show ?thesis by simp
  qed
qed

subsection \<open>A second run inserts nothing\<close>

lemma trigger_is_section_end:
  assumes "inserted_after (l # ls) 0 \<noteq> []"
    and "h = js ''## Property Descriptions'' \<or> h = js ''## Method Descriptions''"
  shows "section_end h l" and "trim l \<noteq> h"
  using assms
  by (auto simp: inserted_after_def properties_trigger_def methods_trigger_def section_end_def
      startsWith_def js_def split: if_splits)

lemma section_with_table_lines:
  assumes "h = js ''## Property Descriptions'' \<or> h = js ''## Method Descriptions''"
  shows "takeWhile (\<lambda>l. \<not> section_end h l) (with_table_lines ls) =
         takeWhile (\<lambda>l. \<not> section_end h l) ls"
proof (induction ls)
  case Nil
  show ?case by simp
next
  case (Cons l ls)
  show ?case
  proof (cases "section_end h l")
    case True
    then show ?thesis by simp
  next
    case False
    with trigger_is_section_end(1)[OF _ assms, of l ls] have "inserted_after (l # ls) 0 = []"
      by blast
    with False Cons.IH show ?thesis by simp
  qed
qed

lemma description_section_with_table_lines:
  assumes h: "h = js ''## Property Descriptions'' \<or> h = js ''## Method Descriptions''"
    and lines: "\<forall>l \<in> set ls. 10 \<notin> set l"
  shows "description_section h (with_table_lines ls) 0 = description_section h ls 0"
  using lines
proof (induction ls)
  case Nil
  show ?case by simp
next
  case (Cons l ls)
  let ?F = "concat (map split_lines (inserted_after (l # ls) 0))"
  show ?case
  proof (cases "trim l = h")
    case True
    with trigger_is_section_end(2)[OF _ h, of l ls] have "inserted_after (l # ls) 0 = []"
      by blast
    with True show ?thesis
      by (simp add: description_section_def section_with_table_lines[OF h])
  next
    case False
    have "\<forall>f \<in> set ?F. trim f \<noteq> h"
    proof
      fix f assume "f \<in> set ?F"
      from inserted_lines_inert[OF Cons.prems this] h show "trim f \<noteq> h"
        using inert_not_heading(3,4)[of f] by auto
    qed
    then have "dropWhile (\<lambda>l. trim l \<noteq> h) (?F @ with_table_lines ls) =
        dropWhile (\<lambda>l. trim l \<noteq> h) (with_table_lines ls)"
      by (intro dropWhile_append2) blast
    with False Cons.IH Cons.prems show ?thesis
      by (simp add: description_section_def)
  qed
qed

lemma with_table_lines_hd:
  "with_table_lines ls = [] \<longleftrightarrow> ls = []" "ls \<noteq> [] \<Longrightarrow> hd (with_table_lines ls) = hd ls"
  by (cases ls; simp)+

lemma second_run_inserts_nothing:
  assumes lines: "\<forall>x \<in> set (l # ls). 10 \<notin> set x"
  shows "inserted_after (with_table_lines (l # ls)) 0 = []"
proof (cases "inserted_after (l # ls) 0 = []")
  case False
  then obtain t where "inserted_after (l # ls) 0 = [[], t, []]"
    by (auto simp: inserted_after_def table_lines_def split: if_splits option.splits)
  then obtain rest where "with_table_lines (l # ls) = l # [] # rest"
    by (simp add: split_lines_def)
  then show ?thesis
    by (simp add: inserted_after_def properties_trigger_def methods_trigger_def
        trim_def trimStart_def trimEnd_def js_def)
next
  case True
  then have w: "with_table_lines (l # ls) = l # with_table_lines ls" by simp
  have trig: "properties_trigger (l # with_table_lines ls) 0 = properties_trigger (l # ls) 0"
    "methods_trigger (l # with_table_lines ls) 0 = methods_trigger (l # ls) 0"
    using with_table_lines_hd[of ls]
    by (cases ls; simp add: properties_trigger_def methods_trigger_def hd_conv_nth)+
  have "extractPropertiesTable (with_table_lines (l # ls)) 0 = extractPropertiesTable (l # ls) 0"
    "extractMethodsTable (with_table_lines (l # ls)) 0 = extractMethodsTable (l # ls) 0"
    using description_section_with_table_lines[OF _ lines, of "js ''## Property Descriptions''"]
      description_section_with_table_lines[OF _ lines, of "js ''## Method Descriptions''"]
    by (simp_all add: extractPropertiesTable_closed extractMethodsTable_closed)
  then have "inserted_after (l # with_table_lines ls) 0 = inserted_after (l # ls) 0"
    unfolding w inserted_after_def trig by simp
  with True show ?thesis
    unfolding w by simp
qed

lemma with_tables_with_table_lines:
  "\<forall>l \<in> set ls. 10 \<notin> set l \<Longrightarrow> with_tables (with_table_lines ls) = with_table_lines ls"
proof (induction ls)
  case Nil
  show ?case by simp
next
  case (Cons l ls)
  let ?F = "concat (map split_lines (inserted_after (l # ls) 0))"
  have F: "\<forall>f \<in> set ?F. inert f"
    using inserted_lines_inert[OF Cons.prems] by blast
  have "with_tables (with_table_lines (l # ls)) =
      l # inserted_after (with_table_lines (l # ls)) 0 @ with_tables (?F @ with_table_lines ls)"
    by simp
  also have "\<dots> = l # ?F @ with_tables (with_table_lines ls)"
    using second_run_inserts_nothing[OF Cons.prems] with_tables_inert[OF F] by simp
  also have "\<dots> = with_table_lines (l # ls)"
    using Cons by simp
  finally show ?case .
qed

lemma split_with_tables:
  "\<forall>l \<in> set ls. 10 \<notin> set l \<Longrightarrow> concat (map split_lines (with_tables ls)) = with_table_lines ls"
  by (induction ls) (simp_all add: split_lines_def split_on_no_delim)

lemma reconstructTables_idempotent:
  "reconstructTables (reconstructTables x) = reconstructTables x"
proof -
  let ?ls = "split_lines x"
  have nl: "\<forall>l \<in> set ?ls. 10 \<notin> set l"
    using split_on_lines_no_delim[of _ 10 x] by (auto simp: split_lines_def)
  have ne: "with_tables ?ls \<noteq> []"
    by (cases ?ls) (simp_all add: split_lines_def)
  have first: "reconstructTables x = join_lines (with_tables ?ls)"
    by (simp add: reconstructTables_def reconstruct_loop_with_tables)
  have "split_lines (reconstructTables x) = with_table_lines ?ls"
    unfolding first split_join_lines[OF ne] by (rule split_with_tables[OF nl])
  then have "reconstructTables (reconstructTables x) = join_lines (with_table_lines ?ls)"
    by (simp add: reconstructTables_def[of "reconstructTables x"] reconstruct_loop_with_tables
        with_tables_with_table_lines[OF nl])
  also have "\<dots> = join_lines (split_lines (reconstructTables x))"
    using \<open>split_lines (reconstructTables x) = with_table_lines ?ls\<close> by simp
  finally show ?thesis by simp
qed


section \<open>Empty sections of a cleaned text\<close>




section \<open>Properties of the language filter\<close>

text \<open>
  Claim C10. No-filter identity: when the language filter is set to no-filtering
  (\<^verbatim>\<open>'both'\<close>), \<^verbatim>\<open>filterByLanguage\<close> returns every input text unchanged.
\<close>

theorem filterByLanguage_both_identity: "filterByLanguage (Some Both) x = x"
  by (simp add: filterByLanguage_def)

subsection \<open>The language of a code tab\<close>

text \<open>
  Claim C2. With the filter set to \<^verbatim>\<open>gdscript\<close>, no line of a code tab tagged
  \<^verbatim>\<open>csharp\<close> should be in the output. The source takes a tab for a tab of the target
  language as soon as its directive line contains the name of that language
  (\<^verbatim>\<open>trimmed.includes(targetLanguage)\<close>, under the comment \<^verbatim>\<open>This is our target language\<close>).
  Here the tab is tagged \<^verbatim>\<open>csharp\<close>, its title mentions gdscript, and its line is in the
  output: the code does not do what the claim, and its own comment, say.
\<close>

theorem filterByLanguage_gdscript_keeps_csharp_tab:
  "filterByLanguage (Some GDScript)
     (js ''.. tabs::\<newline> .. code-tab:: csharp C# (gdscript port)\<newline>    int x;'') =
   js ''.. tabs::\<newline>    int x;''"
  by (simp only: ev ev_filter cong: ev_congs)

text \<open>On an ordinary tab block only the \<^verbatim>\<open>gdscript\<close> lines stay.\<close>

lemma filterByLanguage_example:
  "filterByLanguage (Some GDScript)
     (js ''.. tabs::\<newline> .. code-tab:: gdscript\<newline>    var x\<newline> .. code-tab:: csharp\<newline>    int x;\<newline>Text'') =
   js ''.. tabs::\<newline>    var x\<newline>Text''"
  by (simp only: ev ev_filter cong: ev_congs)

subsection \<open>Directive lines\<close>





section \<open>Properties of the markup cleaner\<close>

subsection \<open>Idempotence\<close>

text \<open>
  Claim C1 as stated fails. The document has an empty Properties section and a property
  declared under Property Descriptions. The first pass inserts the reconstructed table with a
  blank line before and after it; the second pass drops these blank lines (and the second of
  the two spaces in the empty Default cell), so the result of the second pass is not the
  result of the first.
\<close>

lemma cleanupForLLM_first_pass:
  "cleanupForLLM (js ''## Properties\<newline>## Methods\<newline>## Property Descriptions\<newline>int **a**'') =
   js ''## Properties\<newline>\<newline>| Type | Property | Default |\<newline>|------|----------|---------|\<newline>| int | **a** |  |\<newline>\<newline>## Methods\<newline>## Property Descriptions\<newline>int **a**''"
  by (simp only: ev ev_cleaner ev_table cong: ev_congs)

lemma cleanupForLLM_second_pass:
  "cleanupForLLM (js ''## Properties\<newline>\<newline>| Type | Property | Default |\<newline>|------|----------|---------|\<newline>| int | **a** |  |\<newline>\<newline>## Methods\<newline>## Property Descriptions\<newline>int **a**'') =
   js ''## Properties\<newline>| Type | Property | Default |\<newline>|------|----------|---------|\<newline>| int | **a** | |\<newline>## Methods\<newline>## Property Descriptions\<newline>int **a**''"
  by (simp only: ev ev_cleaner ev_table cong: ev_congs)

theorem cleanupForLLM_not_idempotent:
  "cleanupForLLM (cleanupForLLM
     (js ''## Properties\<newline>## Methods\<newline>## Property Descriptions\<newline>int **a**'')) \<noteq>
   cleanupForLLM (js ''## Properties\<newline>## Methods\<newline>## Property Descriptions\<newline>int **a**'')"
  unfolding cleanupForLLM_first_pass
  unfolding cleanupForLLM_second_pass
  by (simp only: ev cong: ev_congs)

text \<open>The rules before the reconstruction are not idempotent either: removing the inner
  \<^verbatim>\<open>[image]\<close> leaves an outer one, which only a second pass removes.\<close>

lemma cleanup_text_not_idempotent:
  "cleanup_text (js ''[im[image]age]'') = js ''[image]'' \<and> cleanup_text (js ''[image]'') = []"
  by (simp only: ev ev_cleaner cong: ev_congs)

text \<open>
  Claim C1, as amended. The table reconstruction is idempotent: run on its own result it
  inserts nothing, since the lines of a table are no headings, end no section and match no
  declaration pattern, and a heading followed by its table no longer stands right before
  the next heading. So \<^verbatim>\<open>cleanupForLLM\<close> is idempotent on every input whose cleaned text
  the rules before the reconstruction leave unchanged.
\<close>

theorem reconstructTables_twice:
  "reconstructTables (reconstructTables y) = reconstructTables y \<and>
   (cleanup_text (cleanupForLLM x) = cleanupForLLM x \<longrightarrow>
      cleanupForLLM (cleanupForLLM x) = cleanupForLLM x)"
  using reconstructTables_idempotent[of y] reconstructTables_idempotent[of "cleanup_text x"]
  by (simp add: cleanupForLLM_def)

theorem reconstructTables_twice_witness:
  "cleanup_text (cleanupForLLM (js ''## Node\<newline>A node.'')) = cleanupForLLM (js ''## Node\<newline>A node.'') \<and>
   cleanupForLLM (cleanupForLLM (js ''## Node\<newline>A node.'')) = cleanupForLLM (js ''## Node\<newline>A node.'')"
proof -
  have first: "cleanupForLLM (js ''## Node\<newline>A node.'') = js ''## Node\<newline>A node.''"
    by (simp only: ev ev_cleaner ev_table cong: ev_congs)
  have stable: "cleanup_text (js ''## Node\<newline>A node.'') = js ''## Node\<newline>A node.''"
    by (simp only: ev ev_cleaner cong: ev_congs)
  from stable have "cleanup_text (cleanupForLLM (js ''## Node\<newline>A node.'')) =
      cleanupForLLM (js ''## Node\<newline>A node.'')"
    unfolding first .
  with reconstructTables_twice[of "[]" "js ''## Node\<newline>A node.''"] show ?thesis
    by blast
qed

subsection \<open>Whitespace\<close>





subsection \<open>Blank lines\<close>

text \<open>
  Claim C7. Runs of three or more blank lines should become one blank line and shorter runs,
  the paragraph breaks, should stay; the source says so itself
  (\<^verbatim>\<open>Clean up multiple consecutive newlines but preserve paragraph breaks\<close>). The filter
  over the lines drops every line that is empty after trimming, so neither happens: the
  single blank line between two paragraphs is removed, and a run of three blank lines is
  removed altogether.
\<close>

theorem cleanupForLLM_drops_paragraph_breaks:
  "cleanupForLLM (js ''a\<newline>\<newline>b'') = js ''a\<newline>b'' \<and>
   cleanupForLLM (js ''a\<newline>\<newline>\<newline>\<newline>b'') = js ''a\<newline>b''"
  by (simp only: ev ev_cleaner ev_table cong: ev_congs)


section \<open>Properties of the table reconstruction\<close>

subsection \<open>Detection of an empty section\<close>




subsection \<open>Rows of the property table\<close>

text \<open>
  Claim C3. \<^verbatim>\<open>reconstructTables\<close> keeps every line and inserts, after a
  \<^verbatim>\<open>## Properties\<close> line that triggers the reconstruction, the table that
  \<^verbatim>\<open>extractPropertiesTable\<close> returns. That table has one row for every line of the section
  \<^verbatim>\<open>## Property Descriptions\<close> (up to the next \<^verbatim>\<open>##\<close> heading) that the property pattern
  matches, in the order of the lines, under the header \<^verbatim>\<open>| Type | Property | Default |\<close>.
  A line \<open>type **name** = `default`\<close>, its type made of word characters, its name an
  identifier and its default free of backticks, is matched with exactly these three parts,
  and its row is \<open>| type | **name** | default |\<close>; a line \<open>type **name**\<close> that goes on
  without an equals sign is matched without a default, and its row has an empty last cell.
  The example is the declaration \<open>Vector2 **global_position** = `Vector2(0, 0)`\<close>.
\<close>

theorem reconstructed_property_rows:
  "reconstructTables content =
     (let lines = split_lines content in
      join_lines (concat (map
        (\<lambda>i. lines ! i #
           (if properties_trigger lines i then
              (case extractPropertiesTable lines i of
                 None \<Rightarrow> []
               | Some t \<Rightarrow> if t = [] then [] else [[], t, []])
            else if methods_trigger lines i then
              (case extractMethodsTable lines i of
                 None \<Rightarrow> []
               | Some t \<Rightarrow> if t = [] then [] else [[], t, []])
            else []))
        [0..<length lines]))) \<and>
   extractPropertiesTable lines i =
     (case description_section (js ''## Property Descriptions'') lines i of
        None \<Rightarrow> None
      | Some sec \<Rightarrow>
          (let properties = List.map_filter (\<lambda>l. propertyMatch (trim l)) sec in
           if properties = [] then None
           else Some (join_lines (properties_header # map property_row properties)))) \<and>
   (t \<noteq> [] \<and> (\<forall>c \<in> set t. isWordChar c) \<and> is_identifier n \<longrightarrow>
      (d \<noteq> [] \<and> 96 \<notin> set d \<longrightarrow>
         propertyMatch (t @ js '' **'' @ n @ js ''** = `'' @ d @ js ''`'' @ rest) =
           Some \<lparr>ptype = t, pname = n, defaultValue = Some d\<rparr>) \<and>
      (dropWhile isWhiteSpace rest = [] \<or> hd (dropWhile isWhiteSpace rest) \<noteq> 61 \<longrightarrow>
         propertyMatch (t @ js '' **'' @ n @ js ''**'' @ rest) =
           Some \<lparr>ptype = t, pname = n, defaultValue = None\<rparr>)) \<and>
   property_row \<lparr>ptype = t, pname = n, defaultValue = Some d\<rparr> =
     js ''| '' @ t @ js '' | **'' @ n @ js ''** | '' @ d @ js '' |'' \<and>
   property_row \<lparr>ptype = t, pname = n, defaultValue = None\<rparr> =
     js ''| '' @ t @ js '' | **'' @ n @ js ''** |  |''"
proof -
  have loop: "reconstructTables content =
     (let lines = split_lines content in
      join_lines (concat (map
        (\<lambda>i. lines ! i #
           (if properties_trigger lines i then table_lines (extractPropertiesTable lines i)
            else if methods_trigger lines i then table_lines (extractMethodsTable lines i)
            else []))
        [0..<length lines])))"
    by (simp add: reconstructTables_def reconstruct_loop_closed inserted_after_def Let_def)
  show ?thesis
    by (intro conjI impI loop[unfolded table_lines_def] extractPropertiesTable_closed
        property_row_shape propertyMatch_shape propertyMatch_shape_no_default) simp_all
qed

theorem reconstructed_property_rows_witness:
  "properties_trigger (split_lines (js ''## Properties\<newline>## Methods\<newline>## Property Descriptions\<newline>Vector2 **global_position** = `Vector2(0, 0)`\<newline>int **a**'')) 0 \<and>
   reconstructTables (js ''## Properties\<newline>## Methods\<newline>## Property Descriptions\<newline>Vector2 **global_position** = `Vector2(0, 0)`\<newline>int **a**'') =
     js ''## Properties\<newline>\<newline>| Type | Property | Default |\<newline>|------|----------|---------|\<newline>| Vector2 | **global_position** | Vector2(0, 0) |\<newline>| int | **a** |  |\<newline>\<newline>## Methods\<newline>## Property Descriptions\<newline>Vector2 **global_position** = `Vector2(0, 0)`\<newline>int **a**'' \<and>
   is_identifier (js ''global_position'') \<and> 96 \<notin> set (js ''Vector2(0, 0)'') \<and>
   propertyMatch (js ''Vector2 **global_position** = `Vector2(0, 0)`'') =
     Some \<lparr>ptype = js ''Vector2'', pname = js ''global_position'',
           defaultValue = Some (js ''Vector2(0, 0)'')\<rparr> \<and>
   property_row \<lparr>ptype = js ''Vector2'', pname = js ''global_position'',
           defaultValue = Some (js ''Vector2(0, 0)'')\<rparr> =
     js ''| Vector2 | **global_position** | Vector2(0, 0) |'' \<and>
   is_identifier (js ''a'') \<and>
   propertyMatch (js ''int **a**'') =
     Some \<lparr>ptype = js ''int'', pname = js ''a'', defaultValue = None\<rparr> \<and>
   property_row \<lparr>ptype = js ''int'', pname = js ''a'', defaultValue = None\<rparr> =
     js ''| int | **a** |  |''"
proof -
  let ?doc = "js ''## Properties\<newline>## Methods\<newline>## Property Descriptions\<newline>Vector2 **global_position** = `Vector2(0, 0)`\<newline>int **a**''"
  note inst = reconstructed_property_rows[of ?doc "split_lines ?doc" 0 "js ''Vector2''"
      "js ''global_position''" "js ''Vector2(0, 0)''" "[]"]
  note inst' = reconstructed_property_rows[of ?doc "split_lines ?doc" 0 "js ''int''"
      "js ''a''" "[]" "[]"]
  have trigger: "properties_trigger (split_lines ?doc) 0"
    by (simp only: ev ev_shape cong: ev_congs)
  have result: "(let lines = split_lines ?doc in
      join_lines (concat (map
        (\<lambda>i. lines ! i #
           (if properties_trigger lines i then
              (case extractPropertiesTable lines i of
                 None \<Rightarrow> []
               | Some t \<Rightarrow> if t = [] then [] else [[], t, []])
            else if methods_trigger lines i then
              (case extractMethodsTable lines i of
                 None \<Rightarrow> []
               | Some t \<Rightarrow> if t = [] then [] else [[], t, []])
            else []))
        [0..<length lines]))) =
      js ''## Properties\<newline>\<newline>| Type | Property | Default |\<newline>|------|----------|---------|\<newline>| Vector2 | **global_position** | Vector2(0, 0) |\<newline>| int | **a** |  |\<newline>\<newline>## Methods\<newline>## Property Descriptions\<newline>Vector2 **global_position** = `Vector2(0, 0)`\<newline>int **a**''"
    by (simp only: ev ev_table ev_shape cong: ev_congs)
  have shape: "js ''Vector2'' \<noteq> [] \<and> (\<forall>c \<in> set (js ''Vector2''). isWordChar c) \<and>
      is_identifier (js ''global_position'') \<and> js ''Vector2(0, 0)'' \<noteq> [] \<and>
      96 \<notin> set (js ''Vector2(0, 0)'')"
    by (simp only: ev ev_shape cong: ev_congs)
  have shape': "js ''int'' \<noteq> [] \<and> (\<forall>c \<in> set (js ''int''). isWordChar c) \<and>
      is_identifier (js ''a'') \<and> dropWhile isWhiteSpace ([]::jsstring) = []"
    by (simp only: ev ev_shape cong: ev_congs)
  have line: "js ''Vector2'' @ js '' **'' @ js ''global_position'' @ js ''** = `'' @
      js ''Vector2(0, 0)'' @ js ''`'' @ [] = js ''Vector2 **global_position** = `Vector2(0, 0)`''"
    "js ''int'' @ js '' **'' @ js ''a'' @ js ''**'' @ [] = js ''int **a**''"
    by (simp_all add: js_def)
  have row: "js ''| '' @ js ''Vector2'' @ js '' | **'' @ js ''global_position'' @ js ''** | '' @
      js ''Vector2(0, 0)'' @ js '' |'' = js ''| Vector2 | **global_position** | Vector2(0, 0) |''"
    "js ''| '' @ js ''int'' @ js '' | **'' @ js ''a'' @ js ''** |  |'' = js ''| int | **a** |  |''"
    by (simp_all add: js_def)
  from inst result have out: "reconstructTables ?doc = js ''## Properties\<newline>\<newline>| Type | Property | Default |\<newline>|------|----------|---------|\<newline>| Vector2 | **global_position** | Vector2(0, 0) |\<newline>| int | **a** |  |\<newline>\<newline>## Methods\<newline>## Property Descriptions\<newline>Vector2 **global_position** = `Vector2(0, 0)`\<newline>int **a**''"
    by simp
  from inst shape have m: "propertyMatch (js ''Vector2 **global_position** = `Vector2(0, 0)`'') =
      Some \<lparr>ptype = js ''Vector2'', pname = js ''global_position'',
            defaultValue = Some (js ''Vector2(0, 0)'')\<rparr>"
    unfolding line by blast
  from inst have r: "property_row \<lparr>ptype = js ''Vector2'', pname = js ''global_position'',
            defaultValue = Some (js ''Vector2(0, 0)'')\<rparr> =
      js ''| Vector2 | **global_position** | Vector2(0, 0) |''"
    unfolding row by blast
  from inst' shape' have m': "propertyMatch (js ''int **a**'') =
      Some \<lparr>ptype = js ''int'', pname = js ''a'', defaultValue = None\<rparr>"
    unfolding line by blast
  from inst' have r': "property_row \<lparr>ptype = js ''int'', pname = js ''a'', defaultValue = None\<rparr> =
      js ''| int | **a** |  |''"
    unfolding row by blast
  from trigger out shape shape' m r m' r' show ?thesis by blast
qed

subsection \<open>Rows of the method table\<close>

text \<open>
  Claim C8. The signature of a method should keep the parameter text as it is written, and
  the return type should lose its trailing parenthetical. The parameter list of the method
  pattern is \<^verbatim>\<open>[^)]*\<close>, so a default value written with parentheses ends it: the row of
  \<open>draw_rect\<close> below loses everything from the first closing parenthesis on and is left
  unbalanced. The annotation stripped from a return type is the first parenthetical, with
  the white space around it, wherever it stands; a second one is kept and joined to what
  precedes the first. On a declaration without nested parentheses the two patterns do what
  the claim says (\<open>methodMatch_shape\<close>, \<open>cleanReturnType_plain\<close>, \<open>cleanReturnType_annotated\<close>).
\<close>

theorem cleanupForLLM_cuts_method_signature:
  "cleanupForLLM (js ''## Methods\<newline>## Property Descriptions\<newline>## Method Descriptions\<newline>`void` **draw_rect**(rect: Rect2, color: Color = Color(1, 1, 1, 1), filled: bool = true)'') =
   js ''## Methods\<newline>\<newline>| Return Type | Method |\<newline>|-------------|--------|\<newline>| void | **draw_rect**(rect: Rect2, color: Color = Color(1, 1, 1, 1) |\<newline>\<newline>## Property Descriptions\<newline>## Method Descriptions\<newline>`void` **draw_rect**(rect: Rect2, color: Color = Color(1, 1, 1, 1), filled: bool = true)'' \<and>
   methodMatch (js ''`void` **draw_rect**(rect: Rect2, color: Color = Color(1, 1, 1, 1), filled: bool = true)'') =
     Some \<lparr>returnType = js ''void'',
           signature = js ''**draw_rect**(rect: Rect2, color: Color = Color(1, 1, 1, 1)''\<rparr> \<and>
   cleanReturnType (js ''Array (of int) (may be empty)'') = js ''Array(may be empty)''"
  by (simp only: ev ev_cleaner ev_table cong: ev_congs)


section \<open>Properties of the orchestrator\<close>

lemma complete_nth:
  "g < length results \<Longrightarrow>
   complete env lang files results j ! g =
     (if j = g then (case outcome env lang (files ! g) of None \<Rightarrow> results ! g | Some md \<Rightarrow> Some md)
      else results ! g)"
  by (auto simp: complete_def outcome_def split: sum.splits)

lemma complete_length [simp]: "length (complete env lang files results j) = length results"
  by (simp add: complete_def split: sum.splits)

lemma run_batch_length [simp]: "length (run_batch env lang files i order results) = length results"
  unfolding run_batch_def by (induction order arbitrary: results) simp_all

lemma run_batch_nth:
  "g < length results \<Longrightarrow>
   run_batch env lang files i order results ! g =
     (if g \<in> (\<lambda>b. i + b) ` set order
      then (case outcome env lang (files ! g) of None \<Rightarrow> results ! g | Some md \<Rightarrow> Some md)
      else results ! g)"
  unfolding run_batch_def
proof (induction order arbitrary: results)
  case Nil
  show ?case by simp
next
  case (Cons b order)
  have len: "g < length (complete env lang files results (i + b))"
    using Cons.prems by simp
  show ?case
    using Cons.IH[OF len] Cons.prems
    by (auto simp: complete_nth split: option.splits)
qed

lemma batch_loop_result:
  assumes k: "0 < k" and fair: "fair_schedule k sched files"
  shows "k dvd i \<Longrightarrow> length r = length files \<Longrightarrow>
     (\<forall>g < length files. r ! g = (if g < i then outcome env lang (files ! g) else None)) \<Longrightarrow>
     batch_loop env lang k sched files i r = Some (map (outcome env lang) files)"
proof (induction "length files - i" arbitrary: i r rule: less_induct)
  case less
  show ?case
  proof (cases "i < length files")
    case False
    with less.prems have "r = map (outcome env lang) files"
      by (auto intro: nth_equalityI)
    with False show ?thesis
      by (subst batch_loop.simps) simp
  next
    case True
    let ?r' = "run_batch env lang files i (sched (i div k)) r"
    from less.prems(1) have idk: "(i div k) * k = i" by simp
    from fair True idk have order: "set (sched (i div k)) = {0..<length (take k (drop i files))}"
      unfolding fair_schedule_def by (metis (full_types))
    have img: "(\<lambda>b. i + b) ` set (sched (i div k)) = {i..<min (i + k) (length files)}"
    proof -
      have "length (take k (drop i files)) = min k (length files - i)" by simp
      then have "(\<lambda>b. i + b) ` set (sched (i div k)) = (\<lambda>b. i + b) ` {0..<min k (length files - i)}"
        by (simp add: order)
      also have "\<dots> = {i..<i + min k (length files - i)}"
        by (simp add: image_add_atLeastLessThan' add.commute)
      also have "\<dots> = {i..<min (i + k) (length files)}"
        using True by (simp add: min_def)
      finally show ?thesis .
    qed
    have inv: "\<forall>g < length files. ?r' ! g = (if g < i + k then outcome env lang (files ! g) else None)"
    proof (intro allI impI)
      fix g assume g: "g < length files"
      then have gl: "g < length r" using less.prems(2) by simp
      show "?r' ! g = (if g < i + k then outcome env lang (files ! g) else None)"
        using less.prems(3) g
        by (auto simp: run_batch_nth[OF gl] img split: option.splits)
    qed
    have "batch_loop env lang k sched files (i + k) ?r' = Some (map (outcome env lang) files)"
    proof (rule less.hyps)
      show "length files - (i + k) < length files - i" using True k by simp
      show "k dvd i + k" using less.prems(1) by simp
      show "length ?r' = length files" using less.prems(2) by simp
      show "\<forall>g < length files. ?r' ! g = (if g < i + k then outcome env lang (files ! g) else None)"
        by (rule inv)
    qed
    with True show ?thesis
      by (subst batch_loop.simps) simp
  qed
qed

lemma header_has_text:
  "trim (js ''\<newline>\<newline>## '' @ rel @ js ''\<newline>\<newline>'' @ body) \<noteq> []"
proof -
  have "35 \<in> set (js ''\<newline>\<newline>## '' @ rel @ js ''\<newline>\<newline>'' @ body)"
    by (simp add: js_def)
  moreover have "\<not> isWhiteSpace 35"
    by (simp add: isWhiteSpace_def)
  ultimately show ?thesis
    unfolding trim_Nil_iff by blast
qed

lemma outcome_convert:
  "outcome env lang f = (case convertRstToMarkdown env lang f of Inl e \<Rightarrow> None | Inr md \<Rightarrow> Some md)"
  by (auto simp: outcome_def convertRstToMarkdown_def header_has_text split: sum.splits)

lemma map_filter_id_map: "List.map_filter id (map f xs) = List.map_filter f xs"
  by (induction xs) (simp_all add: map_filter_simps split: option.splits)

text \<open>
  Claim C9. Order preservation with failure isolation: for every list of documents, every
  concurrency bound (a positive integer) and every order in which the conversions of a batch
  complete, \<^verbatim>\<open>convertedFiles\<close> is the input list restricted to the documents converted
  with success, in the order of the input list; whether a document is in the output depends
  on its own conversion only.
\<close>

theorem convertFilesConcurrently_order:
  assumes "0 < concurrency" and "fair_schedule concurrency sched rstFiles"
  shows "convertFilesConcurrently env lang concurrency sched rstFiles =
           Some (converted env lang rstFiles)"
proof -
  have "batch_loop env lang concurrency sched rstFiles 0 (replicate (length rstFiles) None) =
      Some (map (outcome env lang) rstFiles)"
    by (rule batch_loop_result[OF assms]) simp_all
  then show ?thesis
    by (simp add: convertFilesConcurrently_def converted_def map_filter_id_map outcome_convert[abs_def])
qed

text \<open>
  Seven documents, a concurrency of 5, the conversion of the third one fails: the output has
  the six others in their order, though the callbacks complete out of order.
\<close>

lemma example_schedule_fair: "fair_schedule 5 example_schedule example_files"
  unfolding fair_schedule_def
proof (intro allI impI)
  fix j :: nat
  assume "j * 5 < length example_files"
  then have "j = 0 \<or> j = 1"
    by (auto simp: example_files_def)
  then show "distinct (example_schedule j) \<and>
      set (example_schedule j) = {0..<length (take 5 (drop (j * 5) example_files))}"
    by (auto simp: example_schedule_def example_files_def)
qed

lemma example_converted:
  "converted example_environment (Some Both) example_files =
   [js ''\<newline>\<newline>## a\<newline>\<newline>a'', js ''\<newline>\<newline>## b\<newline>\<newline>b'', js ''\<newline>\<newline>## d\<newline>\<newline>d'',
    js ''\<newline>\<newline>## e\<newline>\<newline>e'', js ''\<newline>\<newline>## f\<newline>\<newline>f'', js ''\<newline>\<newline>## g\<newline>\<newline>g'']"
  by (simp only: ev ev_cleaner ev_table ev_orchestrator cong: ev_congs)

theorem convertFilesConcurrently_order_witness:
  "(0::nat) < 5 \<and> fair_schedule 5 example_schedule example_files \<and>
   convertFilesConcurrently example_environment (Some Both) 5 example_schedule example_files =
     Some [js ''\<newline>\<newline>## a\<newline>\<newline>a'', js ''\<newline>\<newline>## b\<newline>\<newline>b'', js ''\<newline>\<newline>## d\<newline>\<newline>d'',
           js ''\<newline>\<newline>## e\<newline>\<newline>e'', js ''\<newline>\<newline>## f\<newline>\<newline>f'', js ''\<newline>\<newline>## g\<newline>\<newline>g'']"
proof -
  have positive: "(0::nat) < 5" by simp
  from convertFilesConcurrently_order[OF positive example_schedule_fair,
      of example_environment "Some Both"]
  show ?thesis
    using positive example_schedule_fair by (simp only: example_converted simp_thms)
qed

text \<open>With a concurrency of 0 and a document to convert, the loop does not end.\<close>

lemma batch_loop_zero_never_returns:
  assumes "batch_loop env lang k sched rstFiles i results = Some y"
  shows "k = 0 \<longrightarrow> \<not> i < length rstFiles"
  using assms
proof (rule batch_loop.raw_induct[rotated, where P = "\<lambda>env lang k sched rstFiles i results y.
    k = 0 \<longrightarrow> \<not> i < length rstFiles"])
  fix loop :: "environment \<Rightarrow> language option \<Rightarrow> nat \<Rightarrow> (nat \<Rightarrow> nat list) \<Rightarrow> jsstring list \<Rightarrow> nat \<Rightarrow>
      jsstring option list \<Rightarrow> jsstring option list option"
    and env lang k sched rstFiles i results y
  assume ih: "\<And>env lang k sched rstFiles i results y.
      loop env lang k sched rstFiles i results = Some y \<Longrightarrow> k = 0 \<longrightarrow> \<not> i < length rstFiles"
    and body: "(if i < length rstFiles
        then loop env lang k sched rstFiles (i + k)
               (run_batch env lang rstFiles i (sched (i div k)) results)
        else Some results) = Some y"
  show "k = 0 \<longrightarrow> \<not> i < length rstFiles"
  proof (intro impI notI)
    assume "k = 0" and lt: "i < length rstFiles"
    with body have "loop env lang 0 sched rstFiles i
        (run_batch env lang rstFiles i (sched (i div 0)) results) = Some y"
      by simp
    from ih[OF this] lt show False by simp
  qed
qed

lemma batch_loop_zero_diverges:
  "i < length rstFiles \<Longrightarrow> batch_loop env lang 0 sched rstFiles i results = None"
  using batch_loop_zero_never_returns[of env lang 0 sched rstFiles i results]
  by (cases "batch_loop env lang 0 sched rstFiles i results") auto

end
